theory Spec2Isabelle
  imports Complex_Main
begin

section \<open>Python values used by \<^verbatim>\<open>add_mesh_torus.py\<close>\<close>

text \<open>
  Python integers are unbounded, so they are \<^typ>\<open>int\<close>; \<^verbatim>\<open>%\<close> with a positive
  divisor is \<open>mod\<close> on \<^typ>\<open>int\<close> (both take the sign of the divisor).  Python floats
  are idealised as \<^typ>\<open>real\<close>, except in \<^verbatim>\<open>add_uvs\<close>, where the rounding is kept as a
  parameter.  A raised exception is the left summand of the result.
\<close>

datatype py_error = ZeroDivisionError | IndexError

text \<open>\<^verbatim>\<open>range(n)\<close>: the integers \<open>0, 1, ..., n - 1\<close>, empty when \<open>n \<le> 0\<close>.\<close>

definition py_range :: "int \<Rightarrow> int list" where
  "py_range n = map int [0..<nat n]"

section \<open>The part of \<^verbatim>\<open>mathutils\<close> that \<^verbatim>\<open>add_torus\<close> calls\<close>

type_synonym vec3 = "real \<times> real \<times> real"
type_synonym mat3 = "vec3 \<times> vec3 \<times> vec3"

text \<open>\<^verbatim>\<open>Matrix.Rotation(a, 3, 'Z')\<close>: the 3x3 matrix of the rotation by \<open>a\<close> about the Z axis,
  given by its rows.\<close>

definition Rotation_Z :: "real \<Rightarrow> mat3" where
  "Rotation_Z a = ((cos a, - sin a, 0), (sin a, cos a, 0), (0, 0, 1))"

definition dot3 :: "vec3 \<Rightarrow> vec3 \<Rightarrow> real" where
  "dot3 r v = (case r of (a, b, c) \<Rightarrow> case v of (x, y, z) \<Rightarrow> a * x + b * y + c * z)"

text \<open>\<^verbatim>\<open>matrix @ vector\<close>.\<close>

definition mat_vec :: "mat3 \<Rightarrow> vec3 \<Rightarrow> vec3" where
  "mat_vec m v = (case m of (r1, r2, r3) \<Rightarrow> (dot3 r1 v, dot3 r2 v, dot3 r3 v))"

text \<open>\<^verbatim>\<open>vec[:]\<close>: the three components as a list.\<close>

definition vec_list :: "vec3 \<Rightarrow> real list" where
  "vec_list v = (case v of (x, y, z) \<Rightarrow> [x, y, z])"

section \<open>\<^verbatim>\<open>add_torus\<close>\<close>

text \<open>Lines 53--57: the vector built for one \<open>angle\<close> and rotated by \<open>matrix\<close>.\<close>

definition torus_vec :: "real \<Rightarrow> real \<Rightarrow> mat3 \<Rightarrow> real \<Rightarrow> vec3" where
  "torus_vec major_rad minor_rad matrix angle =
     mat_vec matrix (major_rad + (cos angle * minor_rad), 0, sin angle * minor_rad)"

text \<open>Lines 61--68: the three neighbour indices \<open>(i2, i3, i4)\<close> before the seam test.\<close>

definition neighbours :: "int \<Rightarrow> int \<Rightarrow> int \<Rightarrow> int \<Rightarrow> int \<times> int \<times> int" where
  "neighbours minor_seg major_index minor_index i1 =
     (if minor_seg > 2 \<and> minor_index + 1 = minor_seg then
        (let i2 = major_index * minor_seg;
             i3 = i1 + minor_seg;
             i4 = i2 + minor_seg
         in (i2, i3, i4))
      else
        (let i2 = i1 + 1;
             i3 = i1 + minor_seg;
             i4 = i3 + 1
         in (i2, i3, i4)))"

text \<open>Lines 70--75: the same guarded assignment is applied to \<open>i2\<close>, \<open>i3\<close> and \<open>i4\<close>.\<close>

definition seam_wrap :: "int \<Rightarrow> int \<Rightarrow> int \<Rightarrow> int \<Rightarrow> int" where
  "seam_wrap tot_verts section_twist minor_seg i =
     (if i \<ge> tot_verts then (i - tot_verts + section_twist) mod minor_seg else i)"

text \<open>Lines 61--77: the four indices appended to \<open>faces\<close> for one vertex.\<close>

definition face_indices :: "int \<Rightarrow> int \<Rightarrow> int \<Rightarrow> int \<Rightarrow> int \<Rightarrow> int \<Rightarrow> int list" where
  "face_indices tot_verts minor_seg section_twist major_index minor_index i1 =
     (case neighbours minor_seg major_index minor_index i1 of (i2, i3, i4) \<Rightarrow>
        (let i2 = seam_wrap tot_verts section_twist minor_seg i2;
             i3 = seam_wrap tot_verts section_twist minor_seg i3;
             i4 = seam_wrap tot_verts section_twist minor_seg i4
         in [i1, i3, i4, i2]))"

text \<open>The loop state is \<open>(verts, faces, i1)\<close>.  Lines 51--79: the body of the inner loop.\<close>

type_synonym torus_state = "real list \<times> int list \<times> int"

definition minor_body ::
  "real \<Rightarrow> real \<Rightarrow> int \<Rightarrow> real \<Rightarrow> int \<Rightarrow> int \<Rightarrow> mat3 \<Rightarrow> real \<Rightarrow> int \<Rightarrow> int \<Rightarrow>
   torus_state \<Rightarrow> torus_state" where
  "minor_body major_rad minor_rad minor_seg section_angle section_twist tot_verts
     matrix major_twist_angle major_index minor_index st =
     (case st of (verts, faces, i1) \<Rightarrow>
        (let pi_2 = pi * 2;
             angle = pi_2 * real_of_int minor_index / real_of_int minor_seg
                       + section_angle + major_twist_angle;
             vec = torus_vec major_rad minor_rad matrix angle
         in (verts @ vec_list vec,
             faces @ face_indices tot_verts minor_seg section_twist major_index minor_index i1,
             i1 + 1)))"

text \<open>Lines 47--79: the body of the outer loop, which runs the inner loop.\<close>

definition major_body ::
  "real \<Rightarrow> real \<Rightarrow> int \<Rightarrow> int \<Rightarrow> real \<Rightarrow> int \<Rightarrow> int \<Rightarrow> real \<Rightarrow> int \<Rightarrow>
   torus_state \<Rightarrow> torus_state" where
  "major_body major_rad minor_rad major_seg minor_seg section_angle section_twist tot_verts
     twist_step_angle major_index st =
     (let pi_2 = pi * 2;
          matrix = Rotation_Z ((real_of_int major_index / real_of_int major_seg) * pi_2);
          major_twist_angle = real_of_int major_index * twist_step_angle
      in fold (minor_body major_rad minor_rad minor_seg section_angle section_twist tot_verts
                 matrix major_twist_angle major_index)
           (py_range minor_seg) st)"

text \<open>
  Lines 34--81.  The two divisions of line 40 raise \<^verbatim>\<open>ZeroDivisionError\<close> when a segment
  count is zero; no other statement can raise.
\<close>

definition add_torus ::
  "real \<Rightarrow> real \<Rightarrow> int \<Rightarrow> int \<Rightarrow> real \<Rightarrow> int \<Rightarrow> py_error + (real list \<times> int list)" where
  "add_torus major_rad minor_rad major_seg minor_seg section_angle section_twist =
     (if minor_seg = 0 \<or> major_seg = 0 then Inl ZeroDivisionError
      else
        (let pi_2 = pi * 2;
             twist_step_angle =
               ((pi_2 / real_of_int minor_seg) / real_of_int major_seg) * real_of_int section_twist;
             tot_verts = major_seg * minor_seg
         in case fold (major_body major_rad minor_rad major_seg minor_seg section_angle
                         section_twist tot_verts twist_step_angle)
                   (py_range major_seg) ([], [], 0)
            of (verts, faces, i1) \<Rightarrow> Inr (verts, faces)))"

section \<open>The mesh that \<^verbatim>\<open>AddTorus.execute\<close> builds\<close>

text \<open>
  Lines 310--322.  Only the buffers that the generator fills are kept: the vertex count
  and coordinates, the vertex index of every loop, and the loop start and loop total of
  every polygon.
\<close>

record mesh =
  vertices_count :: int
  vertices_co :: "real list"
  loops_vertex_index :: "int list"
  polygons_loop_start :: "int list"
  polygons_loop_total :: "int list"

text \<open>\<^verbatim>\<open>range(0, stop, step)\<close> for a positive \<open>step\<close>.\<close>

definition py_range_step :: "int \<Rightarrow> int \<Rightarrow> int list" where
  "py_range_step stop step = map (\<lambda>k. step * int k) [0..<nat ((stop + step - 1) div step)]"

definition build_mesh :: "real list \<Rightarrow> int list \<Rightarrow> mesh" where
  "build_mesh verts_loc faces =
     (let nbr_loops = int (length faces);
          nbr_polys = nbr_loops div 4
      in \<lparr> vertices_count = int (length verts_loc) div 3,
           vertices_co = verts_loc,
           loops_vertex_index = faces,
           polygons_loop_start = py_range_step nbr_loops 4,
           polygons_loop_total = replicate (nat nbr_polys) 4 \<rparr>)"

section \<open>Sequencing of statements that can raise\<close>

definition bind_err :: "py_error + 'a \<Rightarrow> ('a \<Rightarrow> py_error + 'b) \<Rightarrow> py_error + 'b" where
  "bind_err r f = (case r of Inl e \<Rightarrow> Inl e | Inr x \<Rightarrow> f x)"

text \<open>
  The position that a Python index \<open>i\<close> denotes in a sequence of \<open>n\<close> elements: itself when
  \<open>0 \<le> i < n\<close>, \<open>n + i\<close> when \<open>- n \<le> i < 0\<close>, and \<^verbatim>\<open>IndexError\<close> otherwise.
\<close>

definition py_index :: "nat \<Rightarrow> int \<Rightarrow> py_error + nat" where
  "py_index n i =
     (if 0 \<le> i \<and> i < int n then Inr (nat i)
      else if i < 0 \<and> - int n \<le> i then Inr (nat (int n + i))
      else Inl IndexError)"

text \<open>\<^verbatim>\<open>xs[i]\<close>.\<close>

definition py_get :: "'a list \<Rightarrow> int \<Rightarrow> py_error + 'a" where
  "py_get xs i = bind_err (py_index (length xs) i) (\<lambda>p. Inr (xs ! p))"

text \<open>\<^verbatim>\<open>polygons[k].loop_indices\<close>: \<^verbatim>\<open>range(loop_start, loop_start + loop_total)\<close>.\<close>

definition loop_indices :: "mesh \<Rightarrow> int \<Rightarrow> py_error + int list" where
  "loop_indices m k =
     bind_err (py_get (polygons_loop_start m) k) (\<lambda>start.
     bind_err (py_get (polygons_loop_total m) k) (\<lambda>total.
       Inr (map (\<lambda>c. start + c) (py_range total))))"

section \<open>The UV layer\<close>

text \<open>
  The layer made by \<^verbatim>\<open>mesh.uv_layers.new()\<close> has one entry per loop.  An entry is \<open>None\<close>
  until a mapper assigns to it, so that the model records which loops a mapper has
  written; \<open>Some (u, v)\<close> is the pair last assigned.
\<close>

type_synonym uv = "real \<times> real"
type_synonym uv_data = "uv option list"

definition uv_layers_new :: "mesh \<Rightarrow> uv_data" where
  "uv_layers_new m = replicate (length (loops_vertex_index m)) None"

text \<open>\<^verbatim>\<open>uv_data[loops[c]].uv = p\<close>.\<close>

definition uv_assign :: "uv_data \<Rightarrow> int list \<Rightarrow> int \<Rightarrow> uv \<Rightarrow> py_error + uv_data" where
  "uv_assign uv_data loops c p =
     bind_err (py_get loops c) (\<lambda>l.
     bind_err (py_index (length uv_data) l) (\<lambda>p'.
       Inr (uv_data[p' := Some p])))"

text \<open>
  Lines 109--113 and lines 140--144: both mappers write the four corners of polygon \<open>k\<close>
  in the order \<open>loops[0]\<close>, \<open>loops[1]\<close>, \<open>loops[3]\<close>, \<open>loops[2]\<close>.
\<close>

definition assign_quad_uvs ::
  "mesh \<Rightarrow> uv_data \<Rightarrow> int \<Rightarrow> uv \<Rightarrow> uv \<Rightarrow> uv \<Rightarrow> uv \<Rightarrow> py_error + uv_data" where
  "assign_quad_uvs m uv_data k p0 p1 p3 p2 =
     bind_err (loop_indices m k) (\<lambda>loops.
     bind_err (uv_assign uv_data loops 0 p0) (\<lambda>uv_data.
     bind_err (uv_assign uv_data loops 1 p1) (\<lambda>uv_data.
     bind_err (uv_assign uv_data loops 3 p3) (\<lambda>uv_data.
       uv_assign uv_data loops 2 p2))))"

text \<open>A \<^verbatim>\<open>for\<close> loop over a range whose body can raise: the first error ends the loop.\<close>

definition for_range :: "int \<Rightarrow> (int \<Rightarrow> 's \<Rightarrow> py_error + 's) \<Rightarrow> 's \<Rightarrow> py_error + 's" where
  "for_range n body st = fold (\<lambda>i r. bind_err r (body i)) (py_range n) (Inr st)"

section \<open>\<^verbatim>\<open>add_uvs\<close>\<close>

text \<open>
  \<^verbatim>\<open>math.fmod(x, y)\<close>: the remainder of the division truncated towards zero, which is
  exact on floats.  It raises only for \<open>y = 0\<close>, and the divisors used below are the
  floats nearest to \<open>1 / n\<close> for a non-zero \<open>n\<close>.
\<close>

definition fmod :: "real \<Rightarrow> real \<Rightarrow> real" where
  "fmod x y = x - y * of_int (if 0 \<le> x / y then \<lfloor>x / y\<rfloor> else \<lceil>x / y\<rceil>)"

text \<open>
  The remainder is not continuous in its divisor: \<open>fmod 0.5 y\<close> is \<open>0\<close> when \<open>y\<close> is
  exactly \<open>1 / 10\<close> and almost \<open>1 / 10\<close> when \<open>y\<close> is the float nearest to \<open>1 / 10\<close>, which
  is a little larger.  So in this function the rounding of the float operations is
  kept: \<open>rnd\<close> is the rounding of a real number to the float that stores it, a
  parameter of the model, and every float division, addition and subtraction of the
  source is \<open>rnd\<close> of the exact result.  The literals \<open>0.5\<close>, \<open>1.0\<close> and \<open>2.0\<close>, the
  conversion of a segment count and \<open>fmod\<close> are exact.
\<close>

text \<open>Lines 109--119: the inner loop body, on the state \<open>(uv_data, vertex_index, v_prev, v_next)\<close>.\<close>

definition add_uvs_minor ::
  "(real \<Rightarrow> real) \<Rightarrow> mesh \<Rightarrow> real \<Rightarrow> real \<Rightarrow> real \<Rightarrow> real \<Rightarrow> int \<Rightarrow>
   uv_data \<times> int \<times> real \<times> real \<Rightarrow> py_error + (uv_data \<times> int \<times> real \<times> real)" where
  "add_uvs_minor rnd m v_step v_wrap u_prev u_next minor_index st =
     (case st of (uv_data, vertex_index, v_prev, v_next) \<Rightarrow>
        bind_err (assign_quad_uvs m uv_data vertex_index
                    (u_prev, v_prev) (u_next, v_prev) (u_prev, v_next) (u_next, v_next))
          (\<lambda>uv_data.
             (let v_prev = (if v_next > v_wrap then rnd (v_next - 1) else v_next);
                  v_next = rnd (v_prev + v_step)
              in Inr (uv_data, vertex_index + 1, v_prev, v_next))))"

text \<open>Lines 106--124: the outer loop body, on the state \<open>(uv_data, vertex_index, u_prev, u_next)\<close>.\<close>

definition add_uvs_major ::
  "(real \<Rightarrow> real) \<Rightarrow> mesh \<Rightarrow> int \<Rightarrow> real \<Rightarrow> real \<Rightarrow> real \<Rightarrow> real \<Rightarrow> real \<Rightarrow> int \<Rightarrow>
   uv_data \<times> int \<times> real \<times> real \<Rightarrow> py_error + (uv_data \<times> int \<times> real \<times> real)" where
  "add_uvs_major rnd m minor_seg u_step v_step v_init u_wrap v_wrap major_index st =
     (case st of (uv_data, vertex_index, u_prev, u_next) \<Rightarrow>
        (let v_prev = v_init;
             v_next = rnd (v_prev + v_step)
         in bind_err (for_range minor_seg (add_uvs_minor rnd m v_step v_wrap u_prev u_next)
                        (uv_data, vertex_index, v_prev, v_next))
              (\<lambda>inner. case inner of (uv_data, vertex_index, v_prev, v_next) \<Rightarrow>
                 (let u_prev = (if u_next > u_wrap then rnd (u_next - 1) else u_next);
                      u_next = rnd (u_prev + u_step)
                  in Inr (uv_data, vertex_index, u_prev, u_next)))))"

text \<open>Lines 84--124.  The result is the UV layer after the loops.\<close>

definition add_uvs :: "(real \<Rightarrow> real) \<Rightarrow> mesh \<Rightarrow> int \<Rightarrow> int \<Rightarrow> py_error + uv_data" where
  "add_uvs rnd m minor_seg major_seg =
     (let uv_data = uv_layers_new m in
      if major_seg = 0 \<or> minor_seg = 0 then Inl ZeroDivisionError
      else
        (let u_step = rnd (1 / real_of_int major_seg);
             v_step = rnd (1 / real_of_int minor_seg);
             u_init = rnd (0.5 + fmod 0.5 u_step);
             v_init = rnd (0.5 + fmod 0.5 v_step);
             u_wrap = rnd (1 - rnd (u_step / 2));
             v_wrap = rnd (1 - rnd (v_step / 2));
             vertex_index = 0;
             u_prev = u_init;
             u_next = rnd (u_prev + u_step)
         in bind_err (for_range major_seg
                        (add_uvs_major rnd m minor_seg u_step v_step v_init u_wrap v_wrap)
                        (uv_data, vertex_index, u_prev, u_next))
              (\<lambda>st. case st of (uv_data, vertex_index, u_prev, u_next) \<Rightarrow> Inr uv_data)))"

text \<open>
  The UVs that the result of a mapper holds on the given loops, in the order of the
  loops; empty when the mapper raised.
\<close>

definition loop_uvs :: "py_error + uv_data \<Rightarrow> nat list \<Rightarrow> uv option list" where
  "loop_uvs r loops = (case r of Inl e \<Rightarrow> [] | Inr uv_data \<Rightarrow> map (nth uv_data) loops)"

section \<open>\<^verbatim>\<open>add_uvs_one_ribbon\<close>\<close>

text \<open>Lines 138--144: the inner loop body, on the state \<open>(uv_data, u_prev, u_next)\<close>.\<close>

definition ribbon_idx ::
  "mesh \<Rightarrow> int \<Rightarrow> real \<Rightarrow> int \<Rightarrow> int \<Rightarrow>
   uv_data \<times> real \<times> real \<Rightarrow> py_error + (uv_data \<times> real \<times> real)" where
  "ribbon_idx m minor_seg u_step off idx st =
     (case st of (uv_data, u_prev, u_next) \<Rightarrow>
        (let u_prev = u_next;
             u_next = u_prev + u_step
         in bind_err (assign_quad_uvs m uv_data (idx * minor_seg + off)
                        (u_prev, 0) (u_next, 0) (u_prev, 1) (u_next, 1))
              (\<lambda>uv_data. Inr (uv_data, u_prev, u_next))))"

text \<open>Lines 136--144: the outer loop body.\<close>

definition ribbon_offset ::
  "mesh \<Rightarrow> int \<Rightarrow> int \<Rightarrow> int \<Rightarrow> real \<Rightarrow> int \<Rightarrow>
   uv_data \<times> real \<times> real \<Rightarrow> py_error + (uv_data \<times> real \<times> real)" where
  "ribbon_offset m minor_seg major_seg section_twist u_step offset st =
     (let off = (offset * section_twist) mod minor_seg
      in for_range major_seg (ribbon_idx m minor_seg u_step off) st)"

text \<open>Lines 126--144.  The result is the UV layer after the loops.\<close>

definition add_uvs_one_ribbon :: "mesh \<Rightarrow> int \<Rightarrow> int \<Rightarrow> int \<Rightarrow> py_error + uv_data" where
  "add_uvs_one_ribbon m minor_seg major_seg section_twist =
     (let uv_data = uv_layers_new m;
          count = major_seg * minor_seg
      in if count = 0 then Inl ZeroDivisionError
         else
           (let u_step = 1 / real_of_int count;
                u_next = 0;
                u_prev = 0
            in bind_err (for_range minor_seg
                           (ribbon_offset m minor_seg major_seg section_twist u_step)
                           (uv_data, u_prev, u_next))
                 (\<lambda>st. case st of (uv_data, u_prev, u_next) \<Rightarrow> Inr uv_data)))"

section \<open>The operator \<^verbatim>\<open>AddTorus\<close>\<close>

datatype torus_mode = MAJOR_MINOR | EXT_INT

text \<open>
  The properties of the operator that the generator uses.  The four radii are declared
  \<^verbatim>\<open>FloatProperty(min=0.0, max=10_000.0)\<close> (lines 194--230): an assignment to such a
  property stores the value clamped to the declared range.
\<close>

record AddTorus =
  major_segments :: int
  minor_segments :: int
  section_angle :: real
  section_twist :: int
  mode :: torus_mode
  major_radius :: real
  minor_radius :: real
  abso_major_rad :: real
  abso_minor_rad :: real
  generate_uvs :: bool

text \<open>The value that a float property with the limits \<open>lo\<close> and \<open>hi\<close> stores for \<open>x\<close>.\<close>

definition float_property :: "real \<Rightarrow> real \<Rightarrow> real \<Rightarrow> real" where
  "float_property lo hi x = max lo (min hi x)"


text \<open>Lines 296--299: the conversion at the start of \<^verbatim>\<open>execute\<close>, with the limits of
  lines 194--212.\<close>

definition execute_radii :: "AddTorus \<Rightarrow> AddTorus" where
  "execute_radii self =
     (if mode self = EXT_INT then
        (let extra_helper = (abso_major_rad self - abso_minor_rad self) * 0.5;
             self = self\<lparr>major_radius :=
                      float_property 0 10000 (abso_minor_rad self + extra_helper)\<rparr>;
             self = self\<lparr>minor_radius := float_property 0 10000 extra_helper\<rparr>
         in self)
      else self)"

text \<open>
  Lines 294--334: the operator after the conversion, the mesh, and the UV layer when
  UVs are generated.  \<open>rnd\<close> is the rounding that the grid mapper uses.
\<close>

definition execute ::
  "(real \<Rightarrow> real) \<Rightarrow> AddTorus \<Rightarrow> py_error + (AddTorus \<times> mesh \<times> uv_data option)" where
  "execute rnd self0 =
     (let self = execute_radii self0 in
      bind_err (add_torus (major_radius self) (minor_radius self) (major_segments self)
                  (minor_segments self) (section_angle self) (section_twist self))
        (\<lambda>r. case r of (verts_loc, faces) \<Rightarrow>
           (let m = build_mesh verts_loc faces in
            if generate_uvs self then
              (if section_twist self mod minor_segments self = 0 then
                 bind_err (add_uvs rnd m (minor_segments self) (major_segments self))
                   (\<lambda>uv_data. Inr (self, m, Some uv_data))
               else
                 bind_err (add_uvs_one_ribbon m (minor_segments self) (major_segments self)
                             (section_twist self))
                   (\<lambda>uv_data. Inr (self, m, Some uv_data)))
            else Inr (self, m, None))))"

section \<open>Reading the generator's buffers\<close>

text \<open>
  The generator returns flat buffers: three coordinates per vertex and four vertex
  indices per face.  \<open>vertex_co verts k\<close> and \<open>face_at faces k\<close> are the slices that
  belong to vertex \<open>k\<close> and to face \<open>k\<close>.
\<close>

definition vertex_co :: "real list \<Rightarrow> nat \<Rightarrow> real list" where
  "vertex_co verts k = take 3 (drop (3 * k) verts)"

definition face_at :: "int list \<Rightarrow> nat \<Rightarrow> int list" where
  "face_at faces k = take 4 (drop (4 * k) faces)"

text \<open>
  The three coordinates that the loops append for major index \<open>i\<close> and minor index \<open>j\<close>,
  and the four indices appended with them when the running index \<open>i1\<close> is \<open>k\<close>; used to
  state what the loops compute.
\<close>

definition vertex_at :: "real \<Rightarrow> real \<Rightarrow> int \<Rightarrow> int \<Rightarrow> real \<Rightarrow> int \<Rightarrow> int \<Rightarrow> int \<Rightarrow> real list" where
  "vertex_at R r M N a t i j =
     vec_list (torus_vec R r
       (Rotation_Z ((real_of_int i / real_of_int M) * (pi * 2)))
       (pi * 2 * real_of_int j / real_of_int N + a
          + real_of_int i * (((pi * 2 / real_of_int N) / real_of_int M) * real_of_int t)))"

definition vertex_of :: "real \<Rightarrow> real \<Rightarrow> int \<Rightarrow> int \<Rightarrow> real \<Rightarrow> int \<Rightarrow> int \<Rightarrow> real list" where
  "vertex_of R r M N a t k = vertex_at R r M N a t (k div N) (k mod N)"

definition face_of :: "int \<Rightarrow> int \<Rightarrow> int \<Rightarrow> int \<Rightarrow> int list" where
  "face_of M N t k = face_indices (M * N) N t (k div N) (k mod N) k"

section \<open>Ring centre and distance\<close>

text \<open>
  The centre of major ring \<open>i\<close> is the point \<open>(R, 0, 0)\<close> rotated about the Z axis by the
  ring's angle; \<open>dist3\<close> is the Euclidean distance.  Neither is computed by the source:
  they are the notions in which the distance property of the vertices is stated.
\<close>

definition ring_center :: "real \<Rightarrow> int \<Rightarrow> int \<Rightarrow> vec3" where
  "ring_center R M i = mat_vec (Rotation_Z (2 * pi * real_of_int i / real_of_int M)) (R, 0, 0)"

definition dist3 :: "vec3 \<Rightarrow> vec3 \<Rightarrow> real" where
  "dist3 p q =
     (case p of (x1, y1, z1) \<Rightarrow> case q of (x2, y2, z2) \<Rightarrow>
        sqrt ((x1 - x2)\<^sup>2 + (y1 - y2)\<^sup>2 + (z1 - z2)\<^sup>2))"

section \<open>The order in which the ribbon mapper visits the faces\<close>

text \<open>
  The ribbon mapper runs through the track offsets \<open>0, ..., minorSegments - 1\<close> and,
  for each, through the major indices \<open>0, ..., majorSegments - 1\<close>.  Visit number \<open>v\<close>
  has track offset \<open>v div majorSegments\<close> and major index \<open>v mod majorSegments\<close>, and
  \<open>visit_face\<close> is the face it writes.  \<open>ribbon_written\<close> says that the four corners
  of that face hold the UVs of visit \<open>v\<close>; \<open>ribbon_inv\<close> is the invariant of the
  loops after \<open>V\<close> visits.
\<close>

definition visit_face :: "int \<Rightarrow> int \<Rightarrow> int \<Rightarrow> int \<Rightarrow> int" where
  "visit_face M N t v = (v mod M) * N + ((v div M) * t) mod N"

definition ribbon_written :: "int \<Rightarrow> int \<Rightarrow> int \<Rightarrow> uv_data \<Rightarrow> int \<Rightarrow> bool" where
  "ribbon_written M N t uv v =
     (uv ! (4 * nat (visit_face M N t v)) = Some (real_of_int v / real_of_int (M * N), 0) \<and>
      uv ! (4 * nat (visit_face M N t v) + 1) = Some (real_of_int (v + 1) / real_of_int (M * N), 0) \<and>
      uv ! (4 * nat (visit_face M N t v) + 3) = Some (real_of_int v / real_of_int (M * N), 1) \<and>
      uv ! (4 * nat (visit_face M N t v) + 2) = Some (real_of_int (v + 1) / real_of_int (M * N), 1))"

definition ribbon_inv :: "int \<Rightarrow> int \<Rightarrow> int \<Rightarrow> int \<Rightarrow> uv_data \<times> real \<times> real \<Rightarrow> bool" where
  "ribbon_inv M N t V st =
     (case st of (uv, u_prev, u_next) \<Rightarrow>
        length uv = 4 * nat (M * N) \<and>
        u_next = real_of_int V / real_of_int (M * N) \<and>
        (\<forall>v. 0 \<le> v \<and> v < V \<longrightarrow> ribbon_written M N t uv v))"

section \<open>The loops of \<^verbatim>\<open>add_torus\<close> in closed form\<close>

lemma py_range_Suc: "py_range (int (Suc n)) = py_range (int n) @ [int n]"
  by (simp add: py_range_def nat_add_distrib)

lemma fold_minor_body:
  "fold (minor_body R r N a t tot mx mta i) (py_range (int n)) (v, f, k) =
     (v @ concat (map (\<lambda>j. vec_list (torus_vec R r mx (pi * 2 * real_of_int (int j) / real_of_int N + a + mta))) [0..<n]),
      f @ concat (map (\<lambda>j. face_indices tot N t i (int j) (k + int j)) [0..<n]),
      k + int n)"
proof (induction n)
  case 0
  show ?case by (simp add: py_range_def)
next
  case (Suc n)
  show ?case
    unfolding py_range_Suc fold_append comp_def Suc.IH
    by (simp add: minor_body_def Let_def)
qed

lemma major_body_closed:
  "0 \<le> N \<Longrightarrow> major_body R r M N a t tot (((pi * 2 / real_of_int N) / real_of_int M) * real_of_int t) i (v, f, k) =
     (v @ concat (map (\<lambda>j. vertex_at R r M N a t i (int j)) [0..<nat N]),
      f @ concat (map (\<lambda>j. face_indices tot N t i (int j) (k + int j)) [0..<nat N]),
      k + N)"
  using fold_minor_body [of R r N a t tot _ _ i "nat N" v f k]
  by (simp add: major_body_def Let_def vertex_at_def)

lemma fold_major_body:
  assumes "0 \<le> N"
  shows "fold (major_body R r M N a t tot (((pi * 2 / real_of_int N) / real_of_int M) * real_of_int t))
       (py_range (int m)) ([], [], 0) =
     (concat (map (\<lambda>i. concat (map (\<lambda>j. vertex_at R r M N a t (int i) (int j)) [0..<nat N])) [0..<m]),
      concat (map (\<lambda>i. concat (map (\<lambda>j. face_indices tot N t (int i) (int j) (int i * N + int j)) [0..<nat N])) [0..<m]),
      int m * N)"
proof (induction m)
  case 0
  show ?case by (simp add: py_range_def)
next
  case (Suc m)
  show ?case
    unfolding py_range_Suc fold_append comp_def Suc.IH fold_simps major_body_closed [OF assms]
    by (simp add: algebra_simps)
qed

lemma concat_blocks_length:
  "(\<And>i. i < m \<Longrightarrow> length (g i) = L) \<Longrightarrow> length (concat (map g [0..<m])) = m * L"
  by (induction m) simp_all

lemma concat_blocks_nth:
  "(\<And>i. i < m \<Longrightarrow> length (g i) = L) \<Longrightarrow> i < m \<Longrightarrow> p < L \<Longrightarrow>
     concat (map g [0..<m]) ! (i * L + p) = g i ! p"
proof (induction m)
  case 0
  then show ?case by simp
next
  case (Suc m)
  have len: "length (concat (map g [0..<m])) = m * L"
    using Suc.prems(1) by (simp add: concat_blocks_length)
  show ?case
  proof (cases "i < m")
    case True
    then have "Suc i * L \<le> m * L"
      by (intro mult_le_mono1) simp
    then have "i * L + p < m * L"
      using Suc.prems(3) by simp
    then show ?thesis using Suc True by (simp add: nth_append len)
  next
    case False
    then have "i = m" using Suc.prems(2) by simp
    then show ?thesis using Suc.prems(3) by (simp add: nth_append len)
  qed
qed

lemma upt_next_row: "[0..<Suc m * n] = [0..<m * n] @ map (\<lambda>j. j + m * n) [0..<n]"
proof -
  have "[0..<m * n + n] = [0..<m * n] @ [m * n..<m * n + n]"
    by (rule upt_add_eq_append) simp
  moreover have "map (\<lambda>j. j + m * n) [0..<n] = [m * n..<m * n + n]"
    using map_add_upt [of "m * n" n] by (simp only: add.commute [of n "m * n"])
  moreover have "Suc m * n = m * n + n"
    by simp
  ultimately show ?thesis
    by (simp only:)
qed

lemma concat_grid_flatten:
  assumes "0 < n"
  shows "concat (map (\<lambda>i. concat (map (\<lambda>j. g i j) [0..<n])) [0..<m]) =
         concat (map (\<lambda>k. g (k div n) (k mod n)) [0..<m * n])"
proof (induction m)
  case 0
  show ?case by simp
next
  case (Suc m)
  have dm: "(j + m * n) div n = m \<and> (j + m * n) mod n = j" if "j < n" for j
    using that by simp
  have row: "map (\<lambda>k. g (k div n) (k mod n)) (map (\<lambda>j. j + m * n) [0..<n]) = map (\<lambda>j. g m j) [0..<n]"
    unfolding map_map comp_def
    by (rule map_cong [OF refl]) (simp add: dm)
  have "concat (map (\<lambda>k. g (k div n) (k mod n)) [0..<Suc m * n]) =
        concat (map (\<lambda>k. g (k div n) (k mod n)) [0..<m * n]) @ concat (map (\<lambda>j. g m j) [0..<n])"
    unfolding upt_next_row map_append concat_append row ..
  moreover have "concat (map (\<lambda>i. concat (map (\<lambda>j. g i j) [0..<n])) [0..<Suc m]) =
        concat (map (\<lambda>i. concat (map (\<lambda>j. g i j) [0..<n])) [0..<m]) @ concat (map (\<lambda>j. g m j) [0..<n])"
    by simp
  ultimately show ?case
    using Suc.IH by (simp only:)
qed

lemma add_torus_closed:
  assumes "0 < M" "0 < N"
  shows "add_torus R r M N a t =
           Inr (concat (map (\<lambda>k. vertex_of R r M N a t (int k)) [0..<nat (M * N)]),
                concat (map (\<lambda>k. face_of M N t (int k)) [0..<nat (M * N)]))"
proof -
  define m where "m = nat M"
  define n where "n = nat N"
  have M: "M = int m" and N: "N = int n" and n: "0 < n"
    using assms by (simp_all add: m_def n_def)
  have mn: "nat (M * N) = m * n"
    by (simp add: m_def n_def nat_mult_distrib assms less_imp_le)
  have dv: "int (k div n) = int k div N" "int (k mod n) = int k mod N" for k
    unfolding N by (simp_all add: zdiv_int zmod_int)
  have loop: "fold (major_body R r M N a t (M * N)
                 (((pi * 2 / real_of_int N) / real_of_int M) * real_of_int t))
               (py_range M) ([], [], 0) =
     (concat (map (\<lambda>i. concat (map (\<lambda>j. vertex_at R r M N a t (int i) (int j)) [0..<n])) [0..<m]),
      concat (map (\<lambda>i. concat (map (\<lambda>j. face_indices (M * N) N t (int i) (int j) (int i * N + int j)) [0..<n])) [0..<m]),
      int m * N)"
    using fold_major_body [of N R r M a t "M * N" m] assms
    by (simp only: M [symmetric] n_def less_imp_le)
  have vs: "concat (map (\<lambda>i. concat (map (\<lambda>j. vertex_at R r M N a t (int i) (int j)) [0..<n])) [0..<m]) =
            concat (map (\<lambda>k. vertex_of R r M N a t (int k)) [0..<m * n])"
    unfolding concat_grid_flatten [OF n] vertex_of_def dv ..
  have fs: "concat (map (\<lambda>i. concat (map (\<lambda>j. face_indices (M * N) N t (int i) (int j) (int i * N + int j)) [0..<n])) [0..<m]) =
            concat (map (\<lambda>k. face_of M N t (int k)) [0..<m * n])"
    unfolding concat_grid_flatten [OF n] face_of_def dv
    by (simp only: div_mult_mod_eq)
  have nz: "\<not> (N = 0 \<or> M = 0)"
    using assms by simp
  show ?thesis
    unfolding add_torus_def Let_def loop vs fs mn
    by (simp only: nz if_False prod.case)
qed

section \<open>Index arithmetic of one face\<close>

lemma wrap_bounds:
  fixes N :: int
  assumes "0 < N"
  shows "0 \<le> (x - T + t) mod N" "(x - T + t) mod N < N"
  using assms by simp_all

lemma wrap_neq:
  fixes N :: int
  assumes "2 \<le> N" "x - y = 1 \<or> y - x = 1 \<or> x - y = N - 1 \<or> y - x = N - 1"
  shows "(x - T + t) mod N \<noteq> (y - T + t) mod N"
proof
  assume "(x - T + t) mod N = (y - T + t) mod N"
  then have "N dvd (x - T + t) - (y - T + t)"
    by (simp only: mod_eq_dvd_iff)
  then have d: "N dvd x - y"
    by (simp add: algebra_simps)
  then have d': "N dvd y - x"
    by (metis dvd_minus_iff minus_diff_eq)
  from assms(2) show False
  proof (elim disjE)
    assume "x - y = 1" with d assms(1) show False by simp
  next
    assume "y - x = 1" with d' assms(1) show False by simp
  next
    assume e: "x - y = N - 1"
    have "N dvd N - (x - y)" using d by (simp only: dvd_diff dvd_refl)
    with e assms(1) show False by simp
  next
    assume e: "y - x = N - 1"
    have "N dvd N - (y - x)" using d' by (simp only: dvd_diff dvd_refl)
    with e assms(1) show False by simp
  qed
qed

lemma seam_wrap_range:
  fixes N :: int
  assumes "0 < N" "N \<le> T" "0 \<le> x"
  shows "0 \<le> seam_wrap T t N x \<and> seam_wrap T t N x < T"
proof (cases "x \<ge> T")
  case True
  have b: "0 \<le> (x - T + t) mod N" "(x - T + t) mod N < N"
    using assms(1) by simp_all
  have eq: "seam_wrap T t N x = (x - T + t) mod N"
    using True by (simp add: seam_wrap_def)
  show ?thesis
    unfolding eq using b assms(2) by linarith
next
  case False
  then show ?thesis using assms by (simp add: seam_wrap_def)
qed

lemma neighbours_nonneg:
  fixes N :: int
  assumes "0 < N" "0 \<le> i * N" "0 \<le> j"
    and nb: "neighbours N i j (i * N + j) = (i2, i3, i4)"
  shows "0 \<le> i2 \<and> 0 \<le> i3 \<and> 0 \<le> i4"
proof (cases "N > 2 \<and> j + 1 = N")
  case True
  then have "i2 = i * N" "i3 = i * N + j + N" "i4 = i * N + N"
    using nb by (simp_all add: neighbours_def Let_def)
  then show ?thesis using assms by simp
next
  case False
  then have "neighbours N i j (i * N + j) = (i * N + j + 1, i * N + j + N, i * N + j + N + 1)"
    unfolding neighbours_def Let_def by (simp only: if_False)
  then have "i2 = i * N + j + 1" "i3 = i * N + j + N" "i4 = i * N + j + N + 1"
    using nb by simp_all
  then show ?thesis using assms by simp
qed

lemma face_indices_in_range:
  fixes N T i j t :: int
  assumes "0 < N" "0 \<le> j" "j < N" "0 \<le> i * N" "i * N + N \<le> T"
    and x: "x \<in> set (face_indices T N t i j (i * N + j))"
  shows "0 \<le> x \<and> x < T"
proof -
  obtain i2 i3 i4 where nb: "neighbours N i j (i * N + j) = (i2, i3, i4)"
    by (cases "neighbours N i j (i * N + j)") auto
  have NT: "N \<le> T" using assms by simp
  have pos: "0 \<le> i2" "0 \<le> i3" "0 \<le> i4"
    using neighbours_nonneg [OF assms(1) assms(4) assms(2) nb] by simp_all
  have "x = i * N + j \<or> x = seam_wrap T t N i3 \<or> x = seam_wrap T t N i4 \<or> x = seam_wrap T t N i2"
    using x by (simp add: face_indices_def nb Let_def)
  moreover have "0 \<le> i * N + j \<and> i * N + j < T"
    using assms by simp
  ultimately show ?thesis
    using seam_wrap_range [OF assms(1) NT pos(1)] seam_wrap_range [OF assms(1) NT pos(2)]
      seam_wrap_range [OF assms(1) NT pos(3)]
    by (elim disjE) simp_all
qed

lemma neighbours_plain:
  "\<not> (N > 2 \<and> j + 1 = N) \<Longrightarrow> neighbours N i j k = (k + 1, k + N, k + N + 1)"
  unfolding neighbours_def Let_def by (simp only: if_False)

lemma neighbours_ring_end:
  "N > 2 \<and> j + 1 = N \<Longrightarrow> neighbours N i j k = (i * N, k + N, i * N + N)"
  by (simp add: neighbours_def Let_def)

lemma face_indices_eq:
  "neighbours N i j k = (i2, i3, i4) \<Longrightarrow>
   face_indices T N t i j k = [k, seam_wrap T t N i3, seam_wrap T t N i4, seam_wrap T t N i2]"
  by (simp add: face_indices_def Let_def)

lemma face_indices_distinct:
  fixes N T i j t :: int
  assumes N: "2 \<le> N" and j: "0 \<le> j" "j < N" and q: "0 \<le> i * N"
    and ring: "i * N + N = T \<or> i * N + 2 * N \<le> T" and T: "3 * N \<le> T"
    and ok: "3 \<le> N \<or> i * N + j + 1 < T"
  shows "distinct (face_indices T N t i j (i * N + j))"
proof -
  define q where "q = i * N"
  define w where "w x = (x - T + t) mod N" for x
  have wb: "0 \<le> w x" "w x < N" for x
    using N by (simp_all add: w_def)
  have w1: "w (x + 1) \<noteq> w x" for x
    unfolding w_def using wrap_neq [OF N, of "x + 1" x T t] by simp
  have wN: "w (x + N - 1) \<noteq> w x" for x
    unfolding w_def using wrap_neq [OF N, of "x + N - 1" x T t] by simp
  have sw: "seam_wrap T t N x = (if T \<le> x then w x else x)" for x
    by (simp add: seam_wrap_def w_def)
  note facts = wb [of "q + j + N"] wb [of "q + j + N + 1"] wb [of "q + N"] wb [of "q + j + 1"]
      w1 [of "q + j + N"] wN [of "q + N"]
  show ?thesis
  proof (cases "N > 2 \<and> j + 1 = N")
    case True
    have f: "face_indices T N t i j (q + j) = [q + j, seam_wrap T t N (q + j + N), seam_wrap T t N (q + N), seam_wrap T t N q]"
      using face_indices_eq [OF neighbours_ring_end [OF True, of i "q + j"], of T t]
      by (simp add: q_def)
    have jj: "q + j + N = q + N + N - 1" using True by simp
    have ne: "w (q + j + N) \<noteq> w (q + N)"
      unfolding jj by (rule wN)
    from ring show ?thesis
    proof
      assume last: "i * N + N = T"
      show ?thesis
        unfolding q_def [symmetric] f sw
        using True last [folded q_def] T facts q [folded q_def] ne
        by simp
    next
      assume inner: "i * N + 2 * N \<le> T"
      show ?thesis
        unfolding q_def [symmetric] f sw
        using True inner [folded q_def] q [folded q_def]
        by simp
    qed
  next
    case False
    have f: "face_indices T N t i j (q + j) = [q + j, seam_wrap T t N (q + j + N), seam_wrap T t N (q + j + N + 1), seam_wrap T t N (q + j + 1)]"
      using face_indices_eq [OF neighbours_plain [OF False, of i "q + j"], of T t]
      by simp
    from ring show ?thesis
    proof
      assume last: "i * N + N = T"
      have "q + j + 1 < T" using ok False j last [folded q_def] N unfolding q_def by linarith
      then show ?thesis
        unfolding q_def [symmetric] f sw
        using last [folded q_def] T facts q [folded q_def] j
        by simp
    next
      assume inner: "i * N + 2 * N \<le> T"
      show ?thesis
        unfolding q_def [symmetric] f sw
        using inner [folded q_def] T facts q [folded q_def] j N
        by simp
    qed
  qed
qed

section \<open>Slices of the buffers\<close>

lemma concat_blocks_take_drop:
  assumes len: "\<And>i. i < m \<Longrightarrow> length (g i) = L" and k: "k < m"
  shows "take L (drop (L * k) (concat (map g [0..<m]))) = g k"
proof (rule nth_equalityI)
  have total: "length (concat (map g [0..<m])) = m * L"
    using len by (rule concat_blocks_length)
  have "Suc k * L \<le> m * L"
    using k by (intro mult_le_mono1) simp
  then have room: "L \<le> m * L - L * k"
    by (simp add: mult.commute)
  show l: "length (take L (drop (L * k) (concat (map g [0..<m])))) = length (g k)"
    using room by (simp add: total len [OF k])
  fix p
  assume "p < length (take L (drop (L * k) (concat (map g [0..<m]))))"
  then have p: "p < L"
    by simp
  have "L * k + p \<le> length (concat (map g [0..<m]))"
    using room p by (simp add: total)
  then have "take L (drop (L * k) (concat (map g [0..<m]))) ! p = concat (map g [0..<m]) ! (k * L + p)"
    using p by (simp add: mult.commute)
  also have "\<dots> = g k ! p"
    using len k p by (rule concat_blocks_nth)
  finally show "take L (drop (L * k) (concat (map g [0..<m]))) ! p = g k ! p" .
qed

lemma length_face_of: "length (face_of M N t k) = 4"
  by (simp add: face_of_def face_indices_def Let_def split: prod.splits)

lemma length_vertex_of: "length (vertex_of R r M N a t k) = 3"
  by (simp add: vertex_of_def vertex_at_def vec_list_def split: prod.splits)

lemma face_at_faces:
  "k < m \<Longrightarrow> face_at (concat (map (\<lambda>k. face_of M N t (int k)) [0..<m])) k = face_of M N t (int k)"
  unfolding face_at_def by (rule concat_blocks_take_drop) (simp_all add: length_face_of)

lemma vertex_co_verts:
  "k < m \<Longrightarrow> vertex_co (concat (map (\<lambda>k. vertex_of R r M N a t (int k)) [0..<m])) k =
     vertex_of R r M N a t (int k)"
  unfolding vertex_co_def by (rule concat_blocks_take_drop) (simp_all add: length_vertex_of)

lemma grid_index_facts:
  fixes M N k :: int
  assumes N: "0 < N" and k: "0 \<le> k" "k < M * N"
  shows "0 \<le> k mod N" "k mod N < N" "0 \<le> (k div N) * N" "(k div N) * N + k mod N = k"
    "0 \<le> k div N" "k div N < M"
    "(k div N) * N + N = M * N \<or> (k div N) * N + 2 * N \<le> M * N"
proof -
  show "0 \<le> k mod N" "k mod N < N" using N by simp_all
  show i0: "0 \<le> k div N" using N k by (simp add: pos_imp_zdiv_nonneg_iff)
  then show "0 \<le> (k div N) * N" using N by simp
  show eq: "(k div N) * N + k mod N = k" by simp
  have "(k div N) * N \<le> k"
    using N by (metis eq pos_mod_sign le_add_same_cancel1)
  then have "(k div N) * N < M * N" using k by simp
  then show iM: "k div N < M" using N by (simp add: mult_less_cancel_right)
  then have "k div N + 1 = M \<or> k div N + 2 \<le> M" by linarith
  then show "(k div N) * N + N = M * N \<or> (k div N) * N + 2 * N \<le> M * N"
  proof
    assume "k div N + 1 = M"
    then have "(k div N + 1) * N = M * N" by simp
    then show ?thesis by (simp add: algebra_simps)
  next
    assume "k div N + 2 \<le> M"
    then have "(k div N + 2) * N \<le> M * N" using N by (simp add: mult_right_mono)
    then show ?thesis by (simp add: algebra_simps)
  qed
qed

section \<open>Face indices are in range and distinct\<close>

lemma face_of_props:
  fixes M N t k :: int
  assumes M: "3 \<le> M" and N: "2 \<le> N" and k: "0 \<le> k" "k < M * N"
  shows "\<forall>x \<in> set (face_of M N t k). 0 \<le> x \<and> x < M * N"
    and "3 \<le> N \<or> k + 1 < M * N \<Longrightarrow> distinct (face_of M N t k)"
proof -
  have N0: "0 < N" using N by simp
  note g = grid_index_facts [OF N0 k]
  have ring_in: "(k div N) * N + N \<le> M * N"
    using g(7) N0 by linarith
  have T: "3 * N \<le> M * N"
    using M N0 by (simp add: mult_right_mono)
  have fo: "face_of M N t k = face_indices (M * N) N t (k div N) (k mod N) ((k div N) * N + k mod N)"
    by (simp add: face_of_def)
  show "\<forall>x \<in> set (face_of M N t k). 0 \<le> x \<and> x < M * N"
    unfolding fo using face_indices_in_range [OF N0 g(1) g(2) g(3) ring_in] by blast
  assume "3 \<le> N \<or> k + 1 < M * N"
  then have ok: "3 \<le> N \<or> (k div N) * N + k mod N + 1 < M * N"
    by (simp only: g(4))
  show "distinct (face_of M N t k)"
    unfolding fo by (rule face_indices_distinct [OF N g(1) g(2) g(3) g(7) T ok])
qed

text \<open>
  Claim C1, as the code has it.  For \<open>majorSegments \<ge> 3\<close> and \<open>minorSegments \<ge> 2\<close> the
  generator returns, every face has four indices, each in \<open>[0, majorSegments * minorSegments)\<close>,
  and the four indices of a face are pairwise distinct when \<open>minorSegments \<ge> 3\<close>, and
  for every face but the last one when \<open>minorSegments = 2\<close>.  The test \<^verbatim>\<open>minor_seg > 2\<close>
  of line 61 switches the minor wrap off for a two-sided section; nothing is stated
  about the last face in that case.
\<close>

theorem faces_in_range_distinct:
  assumes "3 \<le> M" and "2 \<le> N"
  shows "\<exists>verts faces. add_torus R r M N a t = Inr (verts, faces) \<and>
           (\<forall>k < nat (M * N).
              length (face_at faces k) = 4 \<and>
              (\<forall>x \<in> set (face_at faces k). 0 \<le> x \<and> x < M * N) \<and>
              (3 \<le> N \<or> int k + 1 < M * N \<longrightarrow> distinct (face_at faces k)))"
proof -
  have pos: "0 < M" "0 < N" using assms by simp_all
  have "\<forall>k < nat (M * N).
          length (face_of M N t (int k)) = 4 \<and>
          (\<forall>x \<in> set (face_of M N t (int k)). 0 \<le> x \<and> x < M * N) \<and>
          (3 \<le> N \<or> int k + 1 < M * N \<longrightarrow> distinct (face_of M N t (int k)))"
  proof (intro allI impI conjI)
    fix k assume k: "k < nat (M * N)"
    then have k': "0 \<le> int k" "int k < M * N" by simp_all
    show "length (face_of M N t (int k)) = 4" by (rule length_face_of)
    show "\<forall>x \<in> set (face_of M N t (int k)). 0 \<le> x \<and> x < M * N"
      by (rule face_of_props(1) [OF assms k'])
    assume "3 \<le> N \<or> int k + 1 < M * N"
    then show "distinct (face_of M N t (int k))"
      by (rule face_of_props(2) [OF assms k'])
  qed
  then show ?thesis
    unfolding add_torus_closed [OF pos] by (simp add: face_at_faces)
qed

theorem faces_in_range_distinct_witness:
  "\<exists>verts faces. add_torus 1 (1 / 4) 3 4 0 1 = Inr (verts, faces) \<and>
     length (face_at faces 11) = 4 \<and> set (face_at faces 11) \<subseteq> {0..<12} \<and>
     distinct (face_at faces 11)"
proof -
  have "(3::int) \<le> 3" and "(2::int) \<le> 4" by simp_all
  from faces_in_range_distinct [OF this, of 1 "1 / 4" 0 1]
  obtain verts faces where r: "add_torus 1 (1 / 4) 3 4 0 1 = Inr (verts, faces)"
    and all: "\<forall>k < nat (3 * 4).
              length (face_at faces k) = 4 \<and>
              (\<forall>x \<in> set (face_at faces k). 0 \<le> x \<and> x < 3 * 4) \<and>
              (3 \<le> (4::int) \<or> int k + 1 < 3 * 4 \<longrightarrow> distinct (face_at faces k))"
    by blast
  have "(11::nat) < nat (3 * 4)" by simp
  with all have "length (face_at faces 11) = 4 \<and>
              (\<forall>x \<in> set (face_at faces 11). 0 \<le> x \<and> x < 3 * 4) \<and>
              (3 \<le> (4::int) \<or> int 11 + 1 < 3 * 4 \<longrightarrow> distinct (face_at faces 11))"
    by blast
  then have "length (face_at faces 11) = 4 \<and> set (face_at faces 11) \<subseteq> {0..<12} \<and>
     distinct (face_at faces 11)"
    by auto
  with r show ?thesis by blast
qed

text \<open>
  With \<open>majorSegments = 3\<close>, \<open>minorSegments = 2\<close> and no twist, the last face is
  \<open>(5, 1, 0, 0)\<close>: \<open>i2 = 6\<close> and \<open>i4 = 8\<close> both wrap to \<open>0\<close>.
\<close>

lemma face_of_3_2_0_5: "face_of 3 2 0 5 = [5, 1, 0, 0]"
  by (simp add: face_of_def face_indices_def neighbours_def seam_wrap_def Let_def)

theorem faces_distinct_counterexample:
  "face_at (snd (projr (add_torus 1 (1 / 4) 3 2 0 0))) 5 = [5, 1, 0, 0] \<and>
   \<not> distinct (face_at (snd (projr (add_torus 1 (1 / 4) 3 2 0 0))) 5)"
proof -
  have pos: "(0::int) < 3" "(0::int) < 2" by simp_all
  have "face_at (snd (projr (add_torus 1 (1 / 4) 3 2 0 0))) 5 = face_of 3 2 0 (int 5)"
    unfolding add_torus_closed [OF pos] sum.sel snd_conv
    by (rule face_at_faces) simp
  then have "face_at (snd (projr (add_torus 1 (1 / 4) 3 2 0 0))) 5 = [5, 1, 0, 0]"
    by (simp add: face_of_3_2_0_5)
  then show ?thesis by simp
qed

section \<open>The twist enters the faces through its residue\<close>

lemma seam_wrap_twist_mod: "seam_wrap T (t mod N) N x = seam_wrap T t N x"
  by (simp add: seam_wrap_def mod_add_right_eq)

lemma face_of_twist_mod: "face_of M N (t mod N) k = face_of M N t k"
  by (simp add: face_of_def face_indices_def seam_wrap_twist_mod)

text \<open>
  Claim C9.  For \<open>majorSegments \<ge> 3\<close> and \<open>minorSegments \<ge> 2\<close> and every twist \<open>t\<close>
  (also \<open>t \<ge> minorSegments\<close>), the generator returns the same face index list for the
  twist \<open>t\<close> and for the twist \<open>t mod minorSegments\<close>; only the vertex lists may differ.
\<close>

theorem faces_twist_residue:
  assumes "3 \<le> M" and "2 \<le> N"
  shows "\<exists>verts verts' faces.
           add_torus R r M N a t = Inr (verts, faces) \<and>
           add_torus R r M N a (t mod N) = Inr (verts', faces)"
proof -
  have pos: "0 < M" "0 < N" using assms by simp_all
  show ?thesis
    unfolding add_torus_closed [OF pos] face_of_twist_mod by blast
qed

theorem faces_twist_residue_witness:
  "\<exists>verts verts' faces.
     add_torus 1 (1 / 4) 3 4 0 9 = Inr (verts, faces) \<and>
     add_torus 1 (1 / 4) 3 4 0 1 = Inr (verts', faces)"
proof -
  have "(3::int) \<le> 3" and "(2::int) \<le> 4" by simp_all
  from faces_twist_residue [OF this, of 1 "1 / 4" 0 9]
  show ?thesis by simp
qed

lemma face_of_unfold:
  "face_of M N t k =
     (case neighbours N (k div N) (k mod N) k of (i2, i3, i4) \<Rightarrow>
        k # map (\<lambda>x. if M * N \<le> x then (x - M * N + t) mod N else x) [i3, i4, i2])"
  by (simp add: face_of_def face_indices_def seam_wrap_def Let_def split: prod.splits)

lemma seam_faces_3_4:
  "face_of 3 4 0 8 = [8, 0, 1, 9]" "face_of 3 4 1 8 = [8, 1, 2, 9]"
  "face_of 3 4 0 9 = [9, 1, 2, 10]" "face_of 3 4 1 9 = [9, 2, 3, 10]"
  "face_of 3 4 0 10 = [10, 2, 3, 11]" "face_of 3 4 1 10 = [10, 3, 0, 11]"
  "face_of 3 4 0 11 = [11, 3, 0, 8]" "face_of 3 4 1 11 = [11, 0, 1, 8]"
  by (simp_all add: face_of_def face_indices_def neighbours_def seam_wrap_def Let_def)

lemma inner_faces_3_4:
  fixes k :: int
  assumes "0 \<le> k" "k < 8"
  shows "face_of 3 4 1 k = face_of 3 4 0 k"
proof -
  have "k = 0 \<or> k = 1 \<or> k = 2 \<or> k = 3 \<or> k = 4 \<or> k = 5 \<or> k = 6 \<or> k = 7"
    using assms by linarith
  then show ?thesis
    by (elim disjE)
      (simp_all add: face_of_def face_indices_def neighbours_def seam_wrap_def Let_def)
qed

section \<open>The seam\<close>

lemma untwisted_wrap: "(x - M * N + 0) mod N = x mod (N::int)"
  by (simp add: mod_diff_right_eq [symmetric])

lemma faces_closed_form:
  assumes "0 < M" and "0 < N"
  shows "\<exists>verts faces. add_torus R r M N a t = Inr (verts, faces) \<and>
           (\<forall>k < nat (M * N). face_at faces k = face_of M N t (int k))"
  unfolding add_torus_closed [OF assms] by (simp add: face_at_faces)

text \<open>
  Claim C3.  For valid segment counts the generator returns, and face \<open>k\<close> is
  \<open>(i1, i3, i4, i2)\<close> where \<open>i1 = k\<close> and every neighbour index \<open>x\<close> of lines 61--68 with
  \<open>x \<ge> majorSegments * minorSegments\<close> has been replaced by
  \<open>(x - majorSegments * minorSegments + sectionTwist) mod minorSegments\<close>.  With twist
  \<open>0\<close> the replacement is \<open>x mod minorSegments\<close>: the vertex of ring \<open>0\<close> with the minor
  index of \<open>x\<close>.  For \<open>majorSegments = 3\<close>, \<open>minorSegments = 4\<close> the faces of rings
  \<open>0\<close> and \<open>1\<close> are the same for twist \<open>1\<close> and twist \<open>0\<close>, and in every face of the last
  ring (faces \<open>8\<close> to \<open>11\<close>) the two wrapped indices \<open>i3\<close> and \<open>i4\<close> for twist \<open>1\<close> are those
  for twist \<open>0\<close> plus \<open>1\<close> modulo \<open>4\<close>, while \<open>i1\<close> and \<open>i2\<close> are unchanged.
\<close>

theorem seam_wrap_rule:
  assumes "3 \<le> M" and "2 \<le> N"
  shows "(\<exists>verts faces. add_torus R r M N a t = Inr (verts, faces) \<and>
            (\<forall>k < nat (M * N). face_at faces k =
               (case neighbours N (int k div N) (int k mod N) (int k) of (i2, i3, i4) \<Rightarrow>
                  int k # map (\<lambda>x. if M * N \<le> x then (x - M * N + t) mod N else x) [i3, i4, i2])))
       \<and> (\<exists>verts faces. add_torus R r M N a 0 = Inr (verts, faces) \<and>
            (\<forall>k < nat (M * N). face_at faces k =
               (case neighbours N (int k div N) (int k mod N) (int k) of (i2, i3, i4) \<Rightarrow>
                  int k # map (\<lambda>x. if M * N \<le> x then x mod N else x) [i3, i4, i2])))
       \<and> (\<exists>v0 f0 v1 f1. add_torus R r 3 4 a 0 = Inr (v0, f0) \<and> add_torus R r 3 4 a 1 = Inr (v1, f1) \<and>
            (\<forall>k < 8. face_at f1 k = face_at f0 k) \<and>
            (\<forall>k. 8 \<le> k \<and> k < 12 \<longrightarrow> face_at f1 k =
               [face_at f0 k ! 0, (face_at f0 k ! 1 + 1) mod 4, (face_at f0 k ! 2 + 1) mod 4,
                face_at f0 k ! 3]) \<and>
            map (face_at f0) [8, 9, 10, 11] = [[8, 0, 1, 9], [9, 1, 2, 10], [10, 2, 3, 11], [11, 3, 0, 8]] \<and>
            map (face_at f1) [8, 9, 10, 11] = [[8, 1, 2, 9], [9, 2, 3, 10], [10, 3, 0, 11], [11, 0, 1, 8]])"
proof (intro conjI)
  have pos: "0 < M" "0 < N" using assms by simp_all
  show "\<exists>verts faces. add_torus R r M N a t = Inr (verts, faces) \<and>
            (\<forall>k < nat (M * N). face_at faces k =
               (case neighbours N (int k div N) (int k mod N) (int k) of (i2, i3, i4) \<Rightarrow>
                  int k # map (\<lambda>x. if M * N \<le> x then (x - M * N + t) mod N else x) [i3, i4, i2]))"
    using faces_closed_form [OF pos, of R r a t] unfolding face_of_unfold .
  show "\<exists>verts faces. add_torus R r M N a 0 = Inr (verts, faces) \<and>
            (\<forall>k < nat (M * N). face_at faces k =
               (case neighbours N (int k div N) (int k mod N) (int k) of (i2, i3, i4) \<Rightarrow>
                  int k # map (\<lambda>x. if M * N \<le> x then x mod N else x) [i3, i4, i2]))"
    using faces_closed_form [OF pos, of R r a 0] unfolding face_of_unfold untwisted_wrap .
  have p34: "(0::int) < 3" "(0::int) < 4" by simp_all
  obtain v0 f0 where r0: "add_torus R r 3 4 a 0 = Inr (v0, f0)"
    and f0: "\<forall>k < nat (3 * 4). face_at f0 k = face_of 3 4 0 (int k)"
    using faces_closed_form [OF p34, of R r a 0] by blast
  obtain v1 f1 where r1: "add_torus R r 3 4 a 1 = Inr (v1, f1)"
    and f1: "\<forall>k < nat (3 * 4). face_at f1 k = face_of 3 4 1 (int k)"
    using faces_closed_form [OF p34, of R r a 1] by blast
  have e0: "face_at f0 k = face_of 3 4 0 (int k)" if "k < 12" for k
    using f0 that by simp
  have e1: "face_at f1 k = face_of 3 4 1 (int k)" if "k < 12" for k
    using f1 that by simp
  have inner: "\<forall>k < 8. face_at f1 k = face_at f0 k"
    by (simp add: e0 e1 inner_faces_3_4)
  have seam0: "map (face_at f0) [8, 9, 10, 11] = [[8, 0, 1, 9], [9, 1, 2, 10], [10, 2, 3, 11], [11, 3, 0, 8]]"
    using seam_faces_3_4 by (simp add: e0)
  have seam1: "map (face_at f1) [8, 9, 10, 11] = [[8, 1, 2, 9], [9, 2, 3, 10], [10, 3, 0, 11], [11, 0, 1, 8]]"
    using seam_faces_3_4 by (simp add: e1)
  have shift: "\<forall>k. 8 \<le> k \<and> k < 12 \<longrightarrow> face_at f1 k =
               [face_at f0 k ! 0, (face_at f0 k ! 1 + 1) mod 4, (face_at f0 k ! 2 + 1) mod 4,
                face_at f0 k ! 3]"
  proof (intro allI impI)
    fix k :: nat
    assume "8 \<le> k \<and> k < 12"
    then have "k = 8 \<or> k = 9 \<or> k = 10 \<or> k = 11" by linarith
    then show "face_at f1 k =
               [face_at f0 k ! 0, (face_at f0 k ! 1 + 1) mod 4, (face_at f0 k ! 2 + 1) mod 4,
                face_at f0 k ! 3]"
      using seam0 seam1 by (elim disjE) simp_all
  qed
  show "\<exists>v0 f0 v1 f1. add_torus R r 3 4 a 0 = Inr (v0, f0) \<and> add_torus R r 3 4 a 1 = Inr (v1, f1) \<and>
            (\<forall>k < 8. face_at f1 k = face_at f0 k) \<and>
            (\<forall>k. 8 \<le> k \<and> k < 12 \<longrightarrow> face_at f1 k =
               [face_at f0 k ! 0, (face_at f0 k ! 1 + 1) mod 4, (face_at f0 k ! 2 + 1) mod 4,
                face_at f0 k ! 3]) \<and>
            map (face_at f0) [8, 9, 10, 11] = [[8, 0, 1, 9], [9, 1, 2, 10], [10, 2, 3, 11], [11, 3, 0, 8]] \<and>
            map (face_at f1) [8, 9, 10, 11] = [[8, 1, 2, 9], [9, 2, 3, 10], [10, 3, 0, 11], [11, 0, 1, 8]]"
    by (intro exI [of _ v0] exI [of _ f0] exI [of _ v1] exI [of _ f1] conjI
          r0 r1 inner shift seam0 seam1)
qed

theorem seam_wrap_rule_witness:
  "\<exists>verts faces. add_torus 1 (1 / 4) 3 4 0 1 = Inr (verts, faces) \<and>
     face_at faces 11 = [11, 0, 1, 8] \<and> face_at faces 3 = [3, 7, 4, 0]"
proof -
  have "(3::int) \<le> 3" and "(2::int) \<le> 4" by simp_all
  from seam_wrap_rule [OF this, of 1 "1 / 4" 0 1]
  obtain verts faces where r: "add_torus 1 (1 / 4) 3 4 0 1 = Inr (verts, faces)"
    and all: "\<forall>k < nat (3 * 4). face_at faces k =
               (case neighbours 4 (int k div 4) (int k mod 4) (int k) of (i2, i3, i4) \<Rightarrow>
                  int k # map (\<lambda>x. if 3 * 4 \<le> x then (x - 3 * 4 + 1) mod 4 else x) [i3, i4, i2])"
    by blast
  have "face_at faces 11 = [11, 0, 1, 8]"
    using all [rule_format, of 11] by (simp add: neighbours_def Let_def)
  moreover have "face_at faces 3 = [3, 7, 4, 0]"
    using all [rule_format, of 3] by (simp add: neighbours_def Let_def)
  ultimately show ?thesis using r by blast
qed

section \<open>Vertices\<close>

lemma add_torus_result:
  assumes "0 < M" and "0 < N"
  shows "\<exists>verts faces. add_torus R r M N a t = Inr (verts, faces) \<and>
           length verts = 3 * nat (M * N) \<and> length faces = 4 * nat (M * N) \<and>
           (\<forall>k < nat (M * N). vertex_co verts k = vertex_of R r M N a t (int k) \<and>
                               face_at faces k = face_of M N t (int k))"
proof -
  define vs where "vs = concat (map (\<lambda>k. vertex_of R r M N a t (int k)) [0..<nat (M * N)])"
  define fs where "fs = concat (map (\<lambda>k. face_of M N t (int k)) [0..<nat (M * N)])"
  have "length vs = nat (M * N) * 3"
    unfolding vs_def by (rule concat_blocks_length) (rule length_vertex_of)
  then have lv: "length vs = 3 * nat (M * N)"
    by (simp only: mult.commute)
  have "length fs = nat (M * N) * 4"
    unfolding fs_def by (rule concat_blocks_length) (rule length_face_of)
  then have lf: "length fs = 4 * nat (M * N)"
    by (simp only: mult.commute)
  have sl: "\<forall>k < nat (M * N). vertex_co vs k = vertex_of R r M N a t (int k) \<and>
                               face_at fs k = face_of M N t (int k)"
    unfolding vs_def fs_def
    by (intro allI impI conjI vertex_co_verts face_at_faces)
  have "add_torus R r M N a t = Inr (vs, fs)"
    unfolding vs_def fs_def by (rule add_torus_closed [OF assms])
  then show ?thesis
    using lv lf sl by (intro exI [of _ vs] exI [of _ fs] conjI)
qed

lemma grid_position:
  fixes M N i j :: int
  assumes "0 < N" "0 \<le> i" "i < M" "0 \<le> j" "j < N"
  shows "nat (i * N + j) < nat (M * N)" "int (nat (i * N + j)) = i * N + j"
    "(i * N + j) div N = i" "(i * N + j) mod N = j"
proof -
  have "(i + 1) * N \<le> M * N"
    using assms by (intro mult_right_mono) simp_all
  then have lt: "i * N + j < M * N"
    using assms by (simp add: algebra_simps)
  have nn: "0 \<le> i * N + j"
    using assms by simp
  show "nat (i * N + j) < nat (M * N)" using lt nn by simp
  show "int (nat (i * N + j)) = i * N + j" using nn by simp
  show "(i * N + j) div N = i" using assms by simp
  show "(i * N + j) mod N = j" using assms by simp
qed

lemma vertex_at_coords:
  "vertex_at R r M N a t i j =
     (let twist_step_angle = (2 * pi / real_of_int N / real_of_int M) * real_of_int t;
          theta = 2 * pi * real_of_int j / real_of_int N + a + real_of_int i * twist_step_angle;
          phi = 2 * pi * real_of_int i / real_of_int M
      in [cos phi * (R + r * cos theta), sin phi * (R + r * cos theta), r * sin theta])"
  by (simp add: vertex_at_def torus_vec_def Rotation_Z_def mat_vec_def dot3_def vec_list_def
      Let_def mult.commute)

lemma vertex_at_rotation:
  "vertex_at R r M N a t i j =
     (let twist_step_angle = (2 * pi / real_of_int N / real_of_int M) * real_of_int t;
          theta = 2 * pi * real_of_int j / real_of_int N + a + real_of_int i * twist_step_angle;
          phi = 2 * pi * real_of_int i / real_of_int M
      in vec_list (mat_vec (Rotation_Z phi) (R + r * cos theta, 0, r * sin theta)))"
  by (simp add: vertex_at_def torus_vec_def Let_def mult.commute)

lemma verts_at_grid:
  assumes "0 < M" and "0 < N"
  shows "\<exists>verts faces. add_torus R r M N a t = Inr (verts, faces) \<and>
           length verts = 3 * nat (M * N) \<and> length faces = 4 * nat (M * N) \<and>
           (\<forall>i j. 0 \<le> i \<and> i < M \<and> 0 \<le> j \<and> j < N \<longrightarrow>
              vertex_co verts (nat (i * N + j)) = vertex_at R r M N a t i j)"
proof -
  obtain verts faces where r: "add_torus R r M N a t = Inr (verts, faces)"
    and l: "length verts = 3 * nat (M * N)" "length faces = 4 * nat (M * N)"
    and v: "\<forall>k < nat (M * N). vertex_co verts k = vertex_of R r M N a t (int k) \<and>
                               face_at faces k = face_of M N t (int k)"
    using add_torus_result [OF assms, of R r a t] by blast
  have "vertex_co verts (nat (i * N + j)) = vertex_at R r M N a t i j"
    if "0 \<le> i \<and> i < M \<and> 0 \<le> j \<and> j < N" for i j
  proof -
    note g = grid_position [OF assms(2), of i M j]
    have "vertex_co verts (nat (i * N + j)) = vertex_of R r M N a t (int (nat (i * N + j)))"
      using v g(1) that by blast
    also have "\<dots> = vertex_at R r M N a t i j"
      using g(2,3,4) that by (simp add: vertex_of_def)
    finally show ?thesis .
  qed
  with r l show ?thesis by blast
qed

text \<open>
  Claim C2.  For \<open>majorSegments \<ge> 3\<close> and \<open>minorSegments \<ge> 2\<close> the generator returns,
  and the three coordinates stored at flat position \<open>i * minorSegments + j\<close> (row-major:
  ring \<open>0\<close> first) are the rotation about the Z axis by \<open>2 pi i / majorSegments\<close> of the
  point \<open>(R + r cos theta, 0, r sin theta)\<close>, where
  \<open>theta = 2 pi j / minorSegments + sectionAngle + i * twistStepAngle\<close> and
  \<open>twistStepAngle = (2 pi / minorSegments / majorSegments) * sectionTwist\<close>; written
  out, the coordinates are \<open>(cos phi (R + r cos theta), sin phi (R + r cos theta), r sin theta)\<close>.
  Floats are taken as reals.
\<close>

theorem vertex_placement:
  assumes "3 \<le> M" and "2 \<le> N"
  shows "\<exists>verts faces. add_torus R r M N a t = Inr (verts, faces) \<and>
           (\<forall>i j. 0 \<le> i \<and> i < M \<and> 0 \<le> j \<and> j < N \<longrightarrow>
              (let twist_step_angle = (2 * pi / real_of_int N / real_of_int M) * real_of_int t;
                   theta = 2 * pi * real_of_int j / real_of_int N + a
                             + real_of_int i * twist_step_angle;
                   phi = 2 * pi * real_of_int i / real_of_int M
               in vertex_co verts (nat (i * N + j)) =
                    vec_list (mat_vec (Rotation_Z phi) (R + r * cos theta, 0, r * sin theta)) \<and>
                  vertex_co verts (nat (i * N + j)) =
                    [cos phi * (R + r * cos theta), sin phi * (R + r * cos theta), r * sin theta]))"
proof -
  have pos: "0 < M" "0 < N" using assms by simp_all
  obtain verts faces where res: "add_torus R r M N a t = Inr (verts, faces)"
    and v: "\<forall>i j. 0 \<le> i \<and> i < M \<and> 0 \<le> j \<and> j < N \<longrightarrow>
              vertex_co verts (nat (i * N + j)) = vertex_at R r M N a t i j"
    using verts_at_grid [OF pos, of R r a t] by blast
  have "\<forall>i j. 0 \<le> i \<and> i < M \<and> 0 \<le> j \<and> j < N \<longrightarrow>
              (let twist_step_angle = (2 * pi / real_of_int N / real_of_int M) * real_of_int t;
                   theta = 2 * pi * real_of_int j / real_of_int N + a
                             + real_of_int i * twist_step_angle;
                   phi = 2 * pi * real_of_int i / real_of_int M
               in vertex_co verts (nat (i * N + j)) =
                    vec_list (mat_vec (Rotation_Z phi) (R + r * cos theta, 0, r * sin theta)) \<and>
                  vertex_co verts (nat (i * N + j)) =
                    [cos phi * (R + r * cos theta), sin phi * (R + r * cos theta), r * sin theta])"
  proof (intro allI impI)
    fix i j
    assume ij: "0 \<le> i \<and> i < M \<and> 0 \<le> j \<and> j < N"
    have e: "vertex_co verts (nat (i * N + j)) = vertex_at R r M N a t i j"
      using v ij by blast
    show "(let twist_step_angle = (2 * pi / real_of_int N / real_of_int M) * real_of_int t;
                   theta = 2 * pi * real_of_int j / real_of_int N + a
                             + real_of_int i * twist_step_angle;
                   phi = 2 * pi * real_of_int i / real_of_int M
               in vertex_co verts (nat (i * N + j)) =
                    vec_list (mat_vec (Rotation_Z phi) (R + r * cos theta, 0, r * sin theta)) \<and>
                  vertex_co verts (nat (i * N + j)) =
                    [cos phi * (R + r * cos theta), sin phi * (R + r * cos theta), r * sin theta])"
      unfolding e Let_def
      using vertex_at_coords [of R r M N a t i j] vertex_at_rotation [of R r M N a t i j]
      unfolding Let_def by simp
  qed
  with res show ?thesis by blast
qed

theorem vertex_placement_witness:
  "\<exists>verts faces. add_torus 1 (1 / 4) 4 4 0 0 = Inr (verts, faces) \<and>
     vertex_co verts 0 = [5 / 4, 0, 0] \<and> vertex_co verts 1 = [1, 0, 1 / 4]"
proof -
  have "(3::int) \<le> 4" and "(2::int) \<le> 4" by simp_all
  from vertex_placement [OF this, of 1 "1 / 4" 0 0]
  obtain verts faces where res: "add_torus 1 (1 / 4) 4 4 0 0 = Inr (verts, faces)"
    and v: "\<forall>i j. 0 \<le> i \<and> i < 4 \<and> 0 \<le> j \<and> j < 4 \<longrightarrow>
              (let twist_step_angle = (2 * pi / real_of_int 4 / real_of_int 4) * real_of_int 0;
                   theta = 2 * pi * real_of_int j / real_of_int 4 + 0
                             + real_of_int i * twist_step_angle;
                   phi = 2 * pi * real_of_int i / real_of_int 4
               in vertex_co verts (nat (i * 4 + j)) =
                    vec_list (mat_vec (Rotation_Z phi) (1 + 1 / 4 * cos theta, 0, 1 / 4 * sin theta)) \<and>
                  vertex_co verts (nat (i * 4 + j)) =
                    [cos phi * (1 + 1 / 4 * cos theta), sin phi * (1 + 1 / 4 * cos theta), 1 / 4 * sin theta])"
    by blast
  have "vertex_co verts 0 = [5 / 4, 0, 0]"
    using v [rule_format, of 0 0]
    by (simp add: Let_def Rotation_Z_def mat_vec_def dot3_def vec_list_def)
  moreover have "vertex_co verts 1 = [1, 0, 1 / 4]"
    using v [rule_format, of 0 1]
    by (simp add: Let_def Rotation_Z_def mat_vec_def dot3_def vec_list_def)
  ultimately show ?thesis using res by blast
qed

section \<open>The mesh buffers\<close>

lemma py_range_step_quads: "py_range_step (int (4 * n)) 4 = map (\<lambda>k. 4 * int k) [0..<n]"
proof -
  have "(int (4 * n) + 4 - 1) div 4 = int n"
    by simp
  then show ?thesis
    by (simp only: py_range_step_def nat_int)
qed

lemma build_mesh_quads:
  assumes "length faces = 4 * n"
  shows "polygons_loop_start (build_mesh verts faces) = map (\<lambda>k. 4 * int k) [0..<n]"
    and "polygons_loop_total (build_mesh verts faces) = replicate n 4"
    and "loops_vertex_index (build_mesh verts faces) = faces"
    and "vertices_count (build_mesh verts faces) = int (length verts) div 3"
    and "vertices_co (build_mesh verts faces) = verts"
  using py_range_step_quads [of n] by (simp_all add: build_mesh_def Let_def assms)

lemma py_index_in_range: "k < n \<Longrightarrow> py_index n (int k) = Inr k"
  by (simp add: py_index_def)

lemma loop_indices_quads:
  assumes "polygons_loop_start m = map (\<lambda>k. 4 * int k) [0..<n]"
    and "polygons_loop_total m = replicate n 4" and "k < n"
  shows "loop_indices m (int k) = Inr [4 * int k, 4 * int k + 1, 4 * int k + 2, 4 * int k + 3]"
proof -
  have "py_range 4 = [0, 1, 2, 3]"
    by (simp add: py_range_def upt_rec)
  then show ?thesis
    using assms by (simp add: loop_indices_def py_get_def bind_err_def py_index_in_range)
qed





text \<open>
  Claim C5.  For \<open>majorSegments \<ge> 3\<close> and \<open>minorSegments \<ge> 2\<close> the generator returns
  \<open>3 * majorSegments * minorSegments\<close> coordinates and \<open>4 * majorSegments * minorSegments\<close>
  face indices; the mesh built from them has \<open>majorSegments * minorSegments\<close> vertices
  and as many polygons; and the vertex computed for major index \<open>i\<close> and minor index
  \<open>j\<close> is stored at flat position \<open>i * minorSegments + j\<close>.
\<close>

theorem counts_and_positions:
  assumes "3 \<le> M" and "2 \<le> N"
  shows "\<exists>verts faces. add_torus R r M N a t = Inr (verts, faces) \<and>
           length verts = 3 * nat (M * N) \<and> length faces = 4 * nat (M * N) \<and>
           vertices_count (build_mesh verts faces) = M * N \<and>
           int (length (polygons_loop_total (build_mesh verts faces))) = M * N \<and>
           (\<forall>i j. 0 \<le> i \<and> i < M \<and> 0 \<le> j \<and> j < N \<longrightarrow>
              vertex_co verts (nat (i * N + j)) = vertex_at R r M N a t i j)"
proof -
  have pos: "0 < M" "0 < N" using assms by simp_all
  then have nn: "0 \<le> M * N" by simp
  obtain verts faces where res: "add_torus R r M N a t = Inr (verts, faces)"
    and lv: "length verts = 3 * nat (M * N)" and lf: "length faces = 4 * nat (M * N)"
    and v: "\<forall>i j. 0 \<le> i \<and> i < M \<and> 0 \<le> j \<and> j < N \<longrightarrow>
              vertex_co verts (nat (i * N + j)) = vertex_at R r M N a t i j"
    using verts_at_grid [OF pos, of R r a t] by blast
  note bm = build_mesh_quads [OF lf, of verts]
  have vc: "vertices_count (build_mesh verts faces) = M * N"
    using nn by (simp add: bm(4) lv)
  have pc: "int (length (polygons_loop_total (build_mesh verts faces))) = M * N"
    using nn by (simp add: bm(2))
  from res lv lf vc pc v show ?thesis
    by (intro exI [of _ verts] exI [of _ faces] conjI)
qed

theorem counts_and_positions_witness:
  "\<exists>verts faces. add_torus 1 (1 / 4) 4 4 0 0 = Inr (verts, faces) \<and>
     length verts = 48 \<and> length faces = 64 \<and>
     vertices_count (build_mesh verts faces) = 16 \<and>
     length (polygons_loop_total (build_mesh verts faces)) = 16 \<and>
     vertex_co verts 6 = vertex_at 1 (1 / 4) 4 4 0 0 1 2"
proof -
  have "(3::int) \<le> 4" and "(2::int) \<le> 4" by simp_all
  from counts_and_positions [OF this, of 1 "1 / 4" 0 0]
  obtain verts faces where res: "add_torus 1 (1 / 4) 4 4 0 0 = Inr (verts, faces)"
    and l: "length verts = 3 * nat (4 * 4)" "length faces = 4 * nat (4 * 4)"
      "vertices_count (build_mesh verts faces) = 4 * 4"
      "int (length (polygons_loop_total (build_mesh verts faces))) = 4 * 4"
    and v: "\<forall>i j. 0 \<le> i \<and> i < 4 \<and> 0 \<le> j \<and> j < 4 \<longrightarrow>
              vertex_co verts (nat (i * 4 + j)) = vertex_at 1 (1 / 4) 4 4 0 0 i j"
    by blast
  have "vertex_co verts 6 = vertex_at 1 (1 / 4) 4 4 0 0 1 2"
    using v [rule_format, of 1 2] by simp
  with res l show ?thesis by simp
qed

section \<open>Distance to the ring centre; the radius conversion\<close>

lemma ring_distance:
  fixes R r c s ct st :: real
  assumes cs: "c\<^sup>2 + s\<^sup>2 = 1" and th: "ct\<^sup>2 + st\<^sup>2 = 1" and r: "0 \<le> r"
  shows "sqrt ((c * (R + r * ct) - c * R)\<^sup>2 + (s * (R + r * ct) - s * R)\<^sup>2 + (r * st - 0)\<^sup>2) = r"
proof -
  have "(c * (R + r * ct) - c * R)\<^sup>2 + (s * (R + r * ct) - s * R)\<^sup>2 + (r * st - 0)\<^sup>2 =
        r\<^sup>2 * (ct\<^sup>2 * (c\<^sup>2 + s\<^sup>2) + st\<^sup>2)"
    by (simp add: algebra_simps power2_eq_square)
  also have "\<dots> = r\<^sup>2"
    by (simp add: cs th)
  finally show ?thesis
    using r by simp
qed

text \<open>
  Claim C6.  With twist \<open>0\<close>, valid segment counts and a minor radius \<open>r \<ge> 0\<close>, every
  vertex of ring \<open>i\<close> lies at Euclidean distance exactly \<open>r\<close> from the centre of its
  ring, over the reals.
\<close>

theorem ring_center_distance:
  assumes "3 \<le> M" and "2 \<le> N" and "0 \<le> r"
  shows "\<exists>verts faces. add_torus R r M N a 0 = Inr (verts, faces) \<and>
           (\<forall>i j. 0 \<le> i \<and> i < M \<and> 0 \<le> j \<and> j < N \<longrightarrow>
              (\<exists>x y z. vertex_co verts (nat (i * N + j)) = [x, y, z] \<and>
                        dist3 (x, y, z) (ring_center R M i) = r))"
proof -
  have pos: "0 < M" "0 < N" using assms by simp_all
  obtain verts faces where res: "add_torus R r M N a 0 = Inr (verts, faces)"
    and v: "\<forall>i j. 0 \<le> i \<and> i < M \<and> 0 \<le> j \<and> j < N \<longrightarrow>
              vertex_co verts (nat (i * N + j)) = vertex_at R r M N a 0 i j"
    using verts_at_grid [OF pos, of R r a 0] by blast
  have "\<exists>x y z. vertex_co verts (nat (i * N + j)) = [x, y, z] \<and>
                 dist3 (x, y, z) (ring_center R M i) = r"
    if ij: "0 \<le> i \<and> i < M \<and> 0 \<le> j \<and> j < N" for i j
  proof -
    define phi where "phi = 2 * pi * real_of_int i / real_of_int M"
    define theta where "theta = 2 * pi * real_of_int j / real_of_int N + a"
    have co: "vertex_co verts (nat (i * N + j)) =
                [cos phi * (R + r * cos theta), sin phi * (R + r * cos theta), r * sin theta]"
      using v ij by (simp add: vertex_at_coords Let_def phi_def theta_def)
    have ce: "ring_center R M i = (cos phi * R, sin phi * R, 0)"
      by (simp add: ring_center_def Rotation_Z_def mat_vec_def dot3_def phi_def)
    have "dist3 (cos phi * (R + r * cos theta), sin phi * (R + r * cos theta), r * sin theta)
            (ring_center R M i) = r"
      unfolding ce dist3_def prod.case
      by (rule ring_distance) (simp_all add: assms(3))
    with co show ?thesis by blast
  qed
  with res show ?thesis by blast
qed

theorem ring_center_distance_witness:
  "\<exists>verts faces x y z. add_torus 1 (1 / 4) 4 4 0 0 = Inr (verts, faces) \<and>
     vertex_co verts 1 = [x, y, z] \<and> dist3 (x, y, z) (ring_center 1 4 0) = 1 / 4 \<and>
     ring_center 1 4 0 = (1, 0, 0)"
proof -
  have "(3::int) \<le> 4" and "(2::int) \<le> 4" and "(0::real) \<le> 1 / 4" by simp_all
  from ring_center_distance [OF this, of 1 0]
  obtain verts faces where res: "add_torus 1 (1 / 4) 4 4 0 0 = Inr (verts, faces)"
    and v: "\<forall>i j. 0 \<le> i \<and> i < 4 \<and> 0 \<le> j \<and> j < 4 \<longrightarrow>
              (\<exists>x y z. vertex_co verts (nat (i * 4 + j)) = [x, y, z] \<and>
                        dist3 (x, y, z) (ring_center 1 4 i) = 1 / 4)"
    by blast
  have "\<exists>x y z. vertex_co verts (nat (0 * 4 + 1)) = [x, y, z] \<and>
                        dist3 (x, y, z) (ring_center 1 4 0) = 1 / 4"
    using v [rule_format, of 0 1] by simp
  then obtain x y z where "vertex_co verts 1 = [x, y, z]"
    and "dist3 (x, y, z) (ring_center 1 4 0) = 1 / 4"
    by auto
  moreover have "ring_center 1 4 0 = (1, 0, 0)"
    by (simp add: ring_center_def Rotation_Z_def mat_vec_def dot3_def)
  ultimately show ?thesis using res by blast
qed







section \<open>The UV mappers on the mesh of quads\<close>

lemma py_get_quad:
  "py_get [a, b, c, d] 0 = Inr a" "py_get [a, b, c, d] 1 = Inr b"
  "py_get [a, b, c, d] 2 = Inr c" "py_get [a, b, c, d] 3 = Inr d"
  by (simp_all add: py_get_def py_index_def bind_err_def)

lemma py_index_nonneg: "0 \<le> l \<Longrightarrow> l < int n \<Longrightarrow> py_index n l = Inr (nat l)"
  by (simp add: py_index_def)

lemma uv_assign_ok:
  assumes "py_get loops c = Inr l" and "0 \<le> l" and "l < int (length uv)"
  shows "uv_assign uv loops c p = Inr (uv[nat l := Some p])"
  using assms(1) py_index_nonneg [OF assms(2,3)]
  by (simp add: uv_assign_def bind_err_def)

lemma assign_quad_uvs_quads:
  assumes ls: "polygons_loop_start m = map (\<lambda>k. 4 * int k) [0..<n]"
    and lt: "polygons_loop_total m = replicate n 4"
    and len: "length uv = 4 * n" and k: "0 \<le> k" "k < int n"
  shows "assign_quad_uvs m uv k p0 p1 p3 p2 =
           Inr (uv[nat (4 * k) := Some p0, nat (4 * k + 1) := Some p1,
                   nat (4 * k + 3) := Some p3, nat (4 * k + 2) := Some p2])"
proof -
  have kn: "nat k < n" "int (nat k) = k" using k by simp_all
  have li: "loop_indices m k = Inr [4 * k, 4 * k + 1, 4 * k + 2, 4 * k + 3]"
    using loop_indices_quads [OF ls lt kn(1)] by (simp only: kn(2))
  have b: "0 \<le> 4 * k" "0 \<le> 4 * k + 1" "0 \<le> 4 * k + 2" "0 \<le> 4 * k + 3"
    using k by simp_all
  define u1 where "u1 = uv[nat (4 * k) := Some p0]"
  define u2 where "u2 = u1[nat (4 * k + 1) := Some p1]"
  define u3 where "u3 = u2[nat (4 * k + 3) := Some p3]"
  have l: "length u1 = 4 * n" "length u2 = 4 * n" "length u3 = 4 * n"
    by (simp_all add: u1_def u2_def u3_def len)
  have r: "4 * k < int (4 * n)" "4 * k + 1 < int (4 * n)" "4 * k + 2 < int (4 * n)"
    "4 * k + 3 < int (4 * n)"
    using k by simp_all
  have s0: "uv_assign uv [4 * k, 4 * k + 1, 4 * k + 2, 4 * k + 3] 0 p0 = Inr u1"
    unfolding u1_def by (rule uv_assign_ok [OF py_get_quad(1) b(1)]) (simp only: len r)
  have s1: "uv_assign u1 [4 * k, 4 * k + 1, 4 * k + 2, 4 * k + 3] 1 p1 = Inr u2"
    unfolding u2_def by (rule uv_assign_ok [OF py_get_quad(2) b(2)]) (simp only: l r)
  have s3: "uv_assign u2 [4 * k, 4 * k + 1, 4 * k + 2, 4 * k + 3] 3 p3 = Inr u3"
    unfolding u3_def by (rule uv_assign_ok [OF py_get_quad(4) b(4)]) (simp only: l r)
  have s2: "uv_assign u3 [4 * k, 4 * k + 1, 4 * k + 2, 4 * k + 3] 2 p2 =
              Inr (u3[nat (4 * k + 2) := Some p2])"
    by (rule uv_assign_ok [OF py_get_quad(3) b(3)]) (simp only: l r)
  show ?thesis
    unfolding assign_quad_uvs_def li bind_err_def sum.case s0 s1 s3 s2
    unfolding u3_def u2_def u1_def ..
qed

lemma py_range_4: "py_range 4 = [0, 1, 2, 3]"
  by (simp add: py_range_def upt_rec)

lemma fmod_half_quarter: "fmod (1 / 2) (1 / 4) = 0"
  by (simp add: fmod_def)

lemma py_range_3: "py_range 3 = [0, 1, 2]"
  by (simp add: py_range_def upt_rec)

lemma add_uvs_4_4:
  assumes ls: "polygons_loop_start m = map (\<lambda>k. 4 * int k) [0..<16]"
    and lt: "polygons_loop_total m = replicate 16 4"
    and lv: "length (loops_vertex_index m) = 64"
    and rnd: "\<forall>k::int. 0 \<le> k \<and> k \<le> 8 \<longrightarrow> rnd (real_of_int k / 8) = real_of_int k / 8"
  shows "\<exists>uv. add_uvs rnd m 4 4 = Inr uv \<and> length uv = 64 \<and>
           uv ! 0 = Some (1 / 2, 1 / 2) \<and> uv ! 1 = Some (3 / 4, 1 / 2) \<and>
           uv ! 3 = Some (1 / 2, 3 / 4) \<and> uv ! 2 = Some (3 / 4, 3 / 4)"
proof -
  note step = assign_quad_uvs_quads [OF ls lt]
  have r: "rnd 0 = 0" "rnd (1 / 8) = 1 / 8" "rnd (1 / 4) = 1 / 4" "rnd (1 / 2) = 1 / 2"
    "rnd (3 / 4) = 3 / 4" "rnd (7 / 8) = 7 / 8" "rnd 1 = 1"
    using rnd [rule_format, of 0] rnd [rule_format, of 1] rnd [rule_format, of 2]
      rnd [rule_format, of 4] rnd [rule_format, of 6] rnd [rule_format, of 7]
      rnd [rule_format, of 8]
    by simp_all
  show ?thesis
    unfolding add_uvs_def uv_layers_new_def lv Let_def for_range_def py_range_4 fold_simps
      add_uvs_major_def add_uvs_minor_def
    by (simp add: step bind_err_def fmod_half_quarter Let_def for_range_def py_range_4 r)
qed

text \<open>
  Claim C7, as the code has it.  Let the floats store the multiples of \<open>1 / 8\<close> from \<open>0\<close>
  to \<open>1\<close> exactly (they do).  For \<open>majorSegments = minorSegments = 4\<close> the grid mapper
  returns, the steps are \<open>1 / 4\<close> and both initial offsets are
  \<open>1 / 2 + fmod (1 / 2) (1 / 4) = 1 / 2\<close>.  The first face has the loops \<open>0, 1, 2, 3\<close>,
  which carry the vertices \<open>(i1, i3, i4, i2) = (0, 4, 5, 1)\<close>.  Lines 110--113 write
  \<open>(u, v) = (1 / 2, 1 / 2)\<close> to loop \<open>0\<close>, \<open>(u + step, v) = (3 / 4, 1 / 2)\<close> to loop \<open>1\<close>,
  \<open>(u, v + step) = (1 / 2, 3 / 4)\<close> to loop \<open>3\<close> and \<open>(u + step, v + step) = (3 / 4, 3 / 4)\<close>
  to loop \<open>2\<close>.  In the face's vertex order \<open>(i1, i3, i4, i2)\<close> the UVs are therefore
  \<open>(u, v)\<close>, \<open>(u + step, v)\<close>, \<open>(u + step, v + step)\<close>, \<open>(u, v + step)\<close>.
\<close>

theorem grid_uv_first_face:
  assumes rnd: "\<forall>k::int. 0 \<le> k \<and> k \<le> 8 \<longrightarrow> rnd (real_of_int k / 8) = real_of_int k / 8"
  shows "\<exists>verts faces uv_data.
     add_torus R r 4 4 a t = Inr (verts, faces) \<and>
     add_uvs rnd (build_mesh verts faces) 4 4 = Inr uv_data \<and>
     loop_indices (build_mesh verts faces) 0 = Inr [0, 1, 2, 3] \<and>
     face_at faces 0 = [0, 4, 5, 1] \<and>
     uv_data ! 0 = Some (1 / 2, 1 / 2) \<and> uv_data ! 1 = Some (3 / 4, 1 / 2) \<and>
     uv_data ! 3 = Some (1 / 2, 3 / 4) \<and> uv_data ! 2 = Some (3 / 4, 3 / 4)"
proof -
  have pos: "(0::int) < 4" by simp
  obtain verts faces where res: "add_torus R r 4 4 a t = Inr (verts, faces)"
    and lf: "length faces = 4 * nat (4 * 4)"
    and sl: "\<forall>k < nat (4 * 4). vertex_co verts k = vertex_of R r 4 4 a t (int k) \<and>
                               face_at faces k = face_of 4 4 t (int k)"
    using add_torus_result [OF pos pos, of R r a t] by blast
  have lf16: "length faces = 4 * 16"
    using lf by simp
  note bm = build_mesh_quads [OF lf16, of verts]
  have lv: "length (loops_vertex_index (build_mesh verts faces)) = 64"
    using lf16 by (simp add: bm(3))
  obtain uv where uv: "add_uvs rnd (build_mesh verts faces) 4 4 = Inr uv"
    and corners: "uv ! 0 = Some (1 / 2, 1 / 2)" "uv ! 1 = Some (3 / 4, 1 / 2)"
      "uv ! 3 = Some (1 / 2, 3 / 4)" "uv ! 2 = Some (3 / 4, 3 / 4)"
    using add_uvs_4_4 [OF bm(1) bm(2) lv rnd] by blast
  have li: "loop_indices (build_mesh verts faces) 0 = Inr [0, 1, 2, 3]"
    using loop_indices_quads [OF bm(1) bm(2), of 0] by simp
  have "face_at faces 0 = face_of 4 4 t (int 0)"
    using sl by simp
  then have f0: "face_at faces 0 = [0, 4, 5, 1]"
    by (simp add: face_of_def face_indices_def neighbours_def seam_wrap_def Let_def)
  from res uv li f0 corners show ?thesis
    by (intro exI [of _ verts] exI [of _ faces] exI [of _ uv] conjI)
qed

theorem grid_uv_first_face_witness:
  "\<exists>verts faces uv_data.
     add_torus 1 (1 / 4) 4 4 0 0 = Inr (verts, faces) \<and>
     add_uvs id (build_mesh verts faces) 4 4 = Inr uv_data \<and>
     loop_indices (build_mesh verts faces) 0 = Inr [0, 1, 2, 3] \<and>
     face_at faces 0 = [0, 4, 5, 1] \<and>
     uv_data ! 0 = Some (1 / 2, 1 / 2) \<and> uv_data ! 1 = Some (3 / 4, 1 / 2) \<and>
     uv_data ! 3 = Some (1 / 2, 3 / 4) \<and> uv_data ! 2 = Some (3 / 4, 3 / 4)"
  using grid_uv_first_face [of id 1 "1 / 4" 0 0] by simp

text \<open>
  The claim gives the third corner of \<open>(i1, i3, i4, i2)\<close> the third listed UV,
  \<open>(1 / 2, 3 / 4)\<close>, and the fourth corner \<open>(3 / 4, 3 / 4)\<close>.  On the mesh of the 4 by 4
  torus, where every value is a binary fraction and the arithmetic is exact, loop \<open>2\<close>
  (vertex \<open>i4 = 5\<close>) holds \<open>(3 / 4, 3 / 4)\<close> and loop \<open>3\<close> (vertex \<open>i2 = 1\<close>) holds
  \<open>(1 / 2, 3 / 4)\<close>.
\<close>

theorem grid_uv_order_counterexample:
  "face_at (snd (projr (add_torus 1 (1 / 4) 4 4 0 0))) 0 = [0, 4, 5, 1] \<and>
   loop_uvs (add_uvs id (build_mesh (fst (projr (add_torus 1 (1 / 4) 4 4 0 0)))
                           (snd (projr (add_torus 1 (1 / 4) 4 4 0 0)))) 4 4) [0, 1, 2, 3] =
     [Some (1 / 2, 1 / 2), Some (3 / 4, 1 / 2), Some (3 / 4, 3 / 4), Some (1 / 2, 3 / 4)] \<and>
   loop_uvs (add_uvs id (build_mesh (fst (projr (add_torus 1 (1 / 4) 4 4 0 0)))
                           (snd (projr (add_torus 1 (1 / 4) 4 4 0 0)))) 4 4) [0, 1, 2, 3] \<noteq>
     [Some (1 / 2, 1 / 2), Some (3 / 4, 1 / 2), Some (1 / 2, 3 / 4), Some (3 / 4, 3 / 4)]"
proof -
  have pos: "(0::int) < 4" by simp
  obtain verts faces where res: "add_torus 1 (1 / 4) 4 4 0 0 = Inr (verts, faces)"
    and lf: "length faces = 4 * nat (4 * 4)"
    and sl: "\<forall>k < nat (4 * 4). vertex_co verts k = vertex_of 1 (1 / 4) 4 4 0 0 (int k) \<and>
                               face_at faces k = face_of 4 4 0 (int k)"
    using add_torus_result [OF pos pos, of 1 "1 / 4" 0 0] by blast
  have lf16: "length faces = 4 * 16"
    using lf by simp
  note bm = build_mesh_quads [OF lf16, of verts]
  have lv: "length (loops_vertex_index (build_mesh verts faces)) = 64"
    using lf16 by (simp add: bm(3))
  have exact: "\<forall>k::int. 0 \<le> k \<and> k \<le> 8 \<longrightarrow> id (real_of_int k / 8) = real_of_int k / 8"
    by simp
  obtain uv where uv: "add_uvs id (build_mesh verts faces) 4 4 = Inr uv"
    and corners: "uv ! 0 = Some (1 / 2, 1 / 2)" "uv ! 1 = Some (3 / 4, 1 / 2)"
      "uv ! 3 = Some (1 / 2, 3 / 4)" "uv ! 2 = Some (3 / 4, 3 / 4)"
    using add_uvs_4_4 [OF bm(1) bm(2) lv exact] by blast
  have "face_at faces 0 = face_of 4 4 0 (int 0)"
    using sl by simp
  then have f0: "face_at faces 0 = [0, 4, 5, 1]"
    by (simp add: face_of_def face_indices_def neighbours_def seam_wrap_def Let_def)
  have lu: "loop_uvs (add_uvs id (build_mesh verts faces) 4 4) [0, 1, 2, 3] =
              [Some (1 / 2, 1 / 2), Some (3 / 4, 1 / 2), Some (3 / 4, 3 / 4), Some (1 / 2, 3 / 4)]"
    using corners by (simp add: loop_uvs_def uv)
  show ?thesis
    unfolding res sum.sel fst_conv snd_conv lu
    using f0 by simp
qed

lemma add_uvs_one_ribbon_3_4_2:
  assumes ls: "polygons_loop_start m = map (\<lambda>k. 4 * int k) [0..<12]"
    and lt: "polygons_loop_total m = replicate 12 4"
    and lv: "length (loops_vertex_index m) = 48"
  shows "\<exists>uv. add_uvs_one_ribbon m 4 3 2 = Inr uv \<and> length uv = 48 \<and>
           uv ! 4 = None \<and> uv ! 5 = None \<and> uv ! 6 = None \<and> uv ! 7 = None \<and>
           uv ! 0 = Some (1 / 2, 0) \<and> uv ! 1 = Some (7 / 12, 0) \<and>
           uv ! 3 = Some (1 / 2, 1) \<and> uv ! 2 = Some (7 / 12, 1)"
proof -
  note step = assign_quad_uvs_quads [OF ls lt]
  show ?thesis
    unfolding add_uvs_one_ribbon_def uv_layers_new_def lv Let_def for_range_def py_range_4
      py_range_3 fold_simps ribbon_offset_def ribbon_idx_def
    by (simp add: step bind_err_def Let_def for_range_def py_range_3)
qed

section \<open>The ribbon mapper\<close>

lemma for_range_invariant:
  assumes step: "\<And>i st. 0 \<le> i \<Longrightarrow> i < int n \<Longrightarrow> P i st \<Longrightarrow> \<exists>st'. body i st = Inr st' \<and> P (i + 1) st'"
    and init: "P 0 st0"
  shows "\<exists>st'. for_range (int n) body st0 = Inr st' \<and> P (int n) st'"
  using step
proof (induction n)
  case 0
  show ?case using init by (simp add: for_range_def py_range_def)
next
  case (Suc n)
  have "\<exists>st'. for_range (int n) body st0 = Inr st' \<and> P (int n) st'"
    by (rule Suc.IH) (rule Suc.prems, simp_all)
  then obtain st1 where r: "for_range (int n) body st0 = Inr st1" and p: "P (int n) st1"
    by blast
  obtain st2 where b: "body (int n) st1 = Inr st2" and p2: "P (int n + 1) st2"
    using Suc.prems [of "int n" st1] p by auto
  have "for_range (int (Suc n)) body st0 = bind_err (for_range (int n) body st0) (body (int n))"
    unfolding for_range_def py_range_Suc by simp
  then have "for_range (int (Suc n)) body st0 = Inr st2"
    by (simp add: r b bind_err_def)
  moreover have "P (int (Suc n)) st2"
    using p2 by (simp add: add.commute)
  ultimately show ?case by blast
qed

lemma quad_update_same:
  assumes "4 * k + 3 < length uv"
  shows "uv[4 * k := a, 4 * k + 1 := b, 4 * k + 3 := c, 4 * k + 2 := d] ! (4 * k) = a"
    and "uv[4 * k := a, 4 * k + 1 := b, 4 * k + 3 := c, 4 * k + 2 := d] ! (4 * k + 1) = b"
    and "uv[4 * k := a, 4 * k + 1 := b, 4 * k + 3 := c, 4 * k + 2 := d] ! (4 * k + 3) = c"
    and "uv[4 * k := a, 4 * k + 1 := b, 4 * k + 3 := c, 4 * k + 2 := d] ! (4 * k + 2) = d"
  using assms by (simp_all add: nth_list_update)

lemma quad_update_other:
  assumes "k' \<noteq> k" and "e < 4"
  shows "uv[4 * k := a, 4 * k + 1 := b, 4 * k + 3 := c, 4 * k + 2 := d] ! (4 * k' + e) =
           uv ! (4 * k' + e)"
proof -
  have "4 * k' + e \<noteq> 4 * k" "4 * k' + e \<noteq> 4 * k + 1" "4 * k' + e \<noteq> 4 * k + 3"
    "4 * k' + e \<noteq> 4 * k + 2"
    using assms by presburger+
  then show ?thesis
    by (simp add: nth_list_update)
qed

lemma track_inj:
  fixes N t p q :: int
  assumes cop: "coprime t N" and p: "0 \<le> p" "p < N" and q: "0 \<le> q" "q < N"
    and eq: "(p * t) mod N = (q * t) mod N"
  shows "p = q"
proof -
  have "N dvd p * t - q * t"
    using eq by (simp only: mod_eq_dvd_iff)
  then have "N dvd (p - q) * t"
    by (simp add: algebra_simps)
  moreover have "coprime N t"
    using cop by (simp add: coprime_commute)
  ultimately have d: "N dvd p - q"
    by (simp add: coprime_dvd_mult_left_iff)
  show ?thesis
  proof (rule ccontr)
    assume ne: "p \<noteq> q"
    show False
    proof (cases "q < p")
      case True
      then have "0 < p - q" "p - q < N" using p q by linarith+
      then show False using d zdvd_not_zless by blast
    next
      case False
      then have "0 < q - p" "q - p < N" using ne p q by linarith+
      moreover have "N dvd q - p"
        using d by (simp add: dvd_diff_commute)
      ultimately show False using zdvd_not_zless by blast
    qed
  qed
qed

lemma visit_face_range:
  fixes M N t v :: int
  assumes "0 < M" "0 < N" "0 \<le> v" "v < N * M"
  shows "0 \<le> visit_face M N t v" "visit_face M N t v < M * N"
    "visit_face M N t v div N = v mod M" "visit_face M N t v mod N = ((v div M) * t) mod N"
proof -
  have i: "0 \<le> v mod M" "v mod M < M" using assms by simp_all
  have r: "0 \<le> ((v div M) * t) mod N" "((v div M) * t) mod N < N" using assms by simp_all
  note g = grid_position [OF assms(2) i r]
  show "0 \<le> visit_face M N t v"
    unfolding visit_face_def using i r assms by simp
  show "visit_face M N t v < M * N"
    unfolding visit_face_def using g(1) i r assms by (simp add: nat_less_iff)
  show "visit_face M N t v div N = v mod M"
    unfolding visit_face_def by (rule g(3))
  show "visit_face M N t v mod N = ((v div M) * t) mod N"
    unfolding visit_face_def by (rule g(4))
qed

lemma visit_face_inj:
  fixes M N t v w :: int
  assumes pos: "0 < M" "0 < N" and cop: "coprime t N"
    and v: "0 \<le> v" "v < N * M" and w: "0 \<le> w" "w < N * M"
    and eq: "visit_face M N t v = visit_face M N t w"
  shows "v = w"
proof -
  have i: "v mod M = w mod M"
    using visit_face_range(3) [OF pos v, of t] visit_face_range(3) [OF pos w, of t] eq by simp
  have r: "((v div M) * t) mod N = ((w div M) * t) mod N"
    using visit_face_range(4) [OF pos v, of t] visit_face_range(4) [OF pos w, of t] eq by simp
  have o: "v div M = w div M"
    using grid_index_facts(5,6) [OF pos(1) v] grid_index_facts(5,6) [OF pos(1) w]
    by (intro track_inj [OF cop _ _ _ _ r]) simp_all
  have "v = M * (v div M) + v mod M" by simp
  also have "\<dots> = M * (w div M) + w mod M" by (simp only: o i)
  also have "\<dots> = w" by simp
  finally show ?thesis .
qed

lemma quad_update_others:
  assumes "k' \<noteq> k"
  shows "uv[4 * k := a, 4 * k + 1 := b, 4 * k + 3 := c, 4 * k + 2 := d] ! (4 * k') = uv ! (4 * k')"
    and "uv[4 * k := a, 4 * k + 1 := b, 4 * k + 3 := c, 4 * k + 2 := d] ! (4 * k' + 1) = uv ! (4 * k' + 1)"
    and "uv[4 * k := a, 4 * k + 1 := b, 4 * k + 3 := c, 4 * k + 2 := d] ! (4 * k' + 3) = uv ! (4 * k' + 3)"
    and "uv[4 * k := a, 4 * k + 1 := b, 4 * k + 3 := c, 4 * k + 2 := d] ! (4 * k' + 2) = uv ! (4 * k' + 2)"
  using quad_update_other [OF assms, of 0 uv a b c d] quad_update_other [OF assms, of 1 uv a b c d]
    quad_update_other [OF assms, of 3 uv a b c d] quad_update_other [OF assms, of 2 uv a b c d]
  by simp_all

lemma ribbon_step:
  assumes ls: "polygons_loop_start m = map (\<lambda>k. 4 * int k) [0..<nat (M * N)]"
    and lt: "polygons_loop_total m = replicate (nat (M * N)) 4"
    and pos: "0 < M" "0 < N" and cop: "coprime t N"
    and V: "0 \<le> V" "V < N * M"
    and inv: "ribbon_inv M N t V st"
  shows "\<exists>st'. ribbon_idx m N (1 / real_of_int (M * N)) (((V div M) * t) mod N) (V mod M) st = Inr st' \<and>
               ribbon_inv M N t (V + 1) st'"
proof -
  obtain uv up un where st: "st = (uv, up, un)"
    by (cases st) auto
  define k where "k = visit_face M N t V"
  define us where "us = 1 / real_of_int (M * N)"
  have len: "length uv = 4 * nat (M * N)" and un: "un = real_of_int V / real_of_int (M * N)"
    and old: "\<And>v. 0 \<le> v \<Longrightarrow> v < V \<Longrightarrow> ribbon_written M N t uv v"
    using inv by (simp_all add: ribbon_inv_def st)
  have k: "0 \<le> k" "k < M * N"
    unfolding k_def by (rule visit_face_range [OF pos V])+
  then have kn: "k < int (nat (M * N))"
    by simp
  have nk: "nat (4 * k) = 4 * nat k" "nat (4 * k + 1) = 4 * nat k + 1"
    "nat (4 * k + 3) = 4 * nat k + 3" "nat (4 * k + 2) = 4 * nat k + 2"
    using k(1) by (simp_all add: nat_add_distrib nat_mult_distrib)
  define uv' where "uv' = uv[4 * nat k := Some (un, 0), 4 * nat k + 1 := Some (un + us, 0),
                   4 * nat k + 3 := Some (un, 1), 4 * nat k + 2 := Some (un + us, 1)]"
  have asg: "assign_quad_uvs m uv k (un, 0) (un + us, 0) (un, 1) (un + us, 1) = Inr uv'"
    using assign_quad_uvs_quads [OF ls lt len k(1) kn, of "(un, 0)" "(un + us, 0)" "(un, 1)"
        "(un + us, 1)"]
    unfolding uv'_def by (simp only: nk)
  have res: "ribbon_idx m N (1 / real_of_int (M * N)) (((V div M) * t) mod N) (V mod M) st =
               Inr (uv', un, un + us)"
    using asg by (simp add: ribbon_idx_def st Let_def bind_err_def k_def visit_face_def us_def)
  have room: "4 * nat k + 3 < length uv"
    using k by (simp add: len)
  have un': "un + us = real_of_int (V + 1) / real_of_int (M * N)"
    by (simp add: un us_def add_divide_distrib)
  have new: "ribbon_written M N t uv' V"
    unfolding ribbon_written_def k_def [symmetric] uv'_def un' [symmetric] un [symmetric]
    by (intro conjI quad_update_same [OF room])
  have keep: "ribbon_written M N t uv' v" if v: "0 \<le> v" "v < V" for v
  proof -
    have vN: "v < N * M" using v V by simp
    have "visit_face M N t v \<noteq> k"
      unfolding k_def using visit_face_inj [OF pos cop v(1) vN V] v(2) by blast
    moreover have "0 \<le> visit_face M N t v"
      by (rule visit_face_range [OF pos v(1) vN])
    ultimately have ne: "nat (visit_face M N t v) \<noteq> nat k"
      using k(1) by simp
    show ?thesis
      using old [OF v] unfolding ribbon_written_def uv'_def
      by (simp only: quad_update_others [OF ne])
  qed
  have "ribbon_written M N t uv' v" if "0 \<le> v \<and> v < V + 1" for v
  proof (cases "v = V")
    case True
    then show ?thesis using new by simp
  next
    case False
    then show ?thesis using keep [of v] that by simp
  qed
  then have "ribbon_inv M N t (V + 1) (uv', un, un + us)"
    by (simp add: ribbon_inv_def uv'_def len un')
  with res show ?thesis by blast
qed

lemma ribbon_offset_inv:
  assumes ls: "polygons_loop_start m = map (\<lambda>k. 4 * int k) [0..<nat (M * N)]"
    and lt: "polygons_loop_total m = replicate (nat (M * N)) 4"
    and pos: "0 < M" "0 < N" and cop: "coprime t N"
    and p: "0 \<le> p" "p < N"
    and inv: "ribbon_inv M N t (p * M) st"
  shows "\<exists>st'. ribbon_offset m N M t (1 / real_of_int (M * N)) p st = Inr st' \<and>
               ribbon_inv M N t ((p + 1) * M) st'"
proof -
  have M: "M = int (nat M)" using pos by simp
  have "\<exists>st'. for_range (int (nat M)) (ribbon_idx m N (1 / real_of_int (M * N)) ((p * t) mod N)) st = Inr st' \<and>
          ribbon_inv M N t (p * M + int (nat M)) st'"
  proof (rule for_range_invariant [where P = "\<lambda>i. ribbon_inv M N t (p * M + i)"])
    show "ribbon_inv M N t (p * M + 0) st"
      using inv by simp
    fix i st1
    assume i: "0 \<le> i" "i < int (nat M)" and p1: "ribbon_inv M N t (p * M + i) st1"
    have iM: "i < M" using i pos by simp
    note g = grid_position [OF pos(1) p i(1) iM]
    have V: "0 \<le> p * M + i" "p * M + i < N * M"
      using g(1) i(1) p(1) pos by (simp_all add: nat_less_iff)
    show "\<exists>st'. ribbon_idx m N (1 / real_of_int (M * N)) ((p * t) mod N) i st1 = Inr st' \<and>
                 ribbon_inv M N t (p * M + (i + 1)) st'"
      using ribbon_step [OF ls lt pos cop V p1]
      by (simp only: g(3) g(4) add.assoc)
  qed
  then show ?thesis
    unfolding ribbon_offset_def Let_def M [symmetric]
    by (simp only: distrib_right mult_1)
qed

lemma ribbon_loops_inv:
  assumes ls: "polygons_loop_start m = map (\<lambda>k. 4 * int k) [0..<nat (M * N)]"
    and lt: "polygons_loop_total m = replicate (nat (M * N)) 4"
    and lv: "length (loops_vertex_index m) = 4 * nat (M * N)"
    and pos: "0 < M" "0 < N" and cop: "coprime t N"
  shows "\<exists>uv. add_uvs_one_ribbon m N M t = Inr uv \<and> length uv = 4 * nat (M * N) \<and>
              (\<forall>v. 0 \<le> v \<and> v < N * M \<longrightarrow> ribbon_written M N t uv v)"
proof -
  have N: "N = int (nat N)" using pos by simp
  have "\<exists>st'. for_range (int (nat N)) (ribbon_offset m N M t (1 / real_of_int (M * N)))
                 (replicate (4 * nat (M * N)) None, 0, 0) = Inr st' \<and>
          ribbon_inv M N t (int (nat N) * M) st'"
  proof (rule for_range_invariant [where P = "\<lambda>p. ribbon_inv M N t (p * M)"])
    show "ribbon_inv M N t (0 * M) (replicate (4 * nat (M * N)) None, 0, 0)"
      by (auto simp: ribbon_inv_def)
    fix p st1
    assume p: "0 \<le> p" "p < int (nat N)" and p1: "ribbon_inv M N t (p * M) st1"
    have pN: "p < N" using p pos by simp
    show "\<exists>st'. ribbon_offset m N M t (1 / real_of_int (M * N)) p st1 = Inr st' \<and>
                 ribbon_inv M N t ((p + 1) * M) st'"
      by (rule ribbon_offset_inv [OF ls lt pos cop p(1) pN p1])
  qed
  then obtain st' where r: "for_range N (ribbon_offset m N M t (1 / real_of_int (M * N)))
                 (replicate (4 * nat (M * N)) None, 0, 0) = Inr st'"
    and i: "ribbon_inv M N t (N * M) st'"
    unfolding N [symmetric] by blast
  obtain uv up un where st': "st' = (uv, up, un)"
    by (cases st') auto
  have nz: "M * N \<noteq> 0" using pos by simp
  have "add_uvs_one_ribbon m N M t = Inr uv"
    unfolding add_uvs_one_ribbon_def uv_layers_new_def lv Let_def
    using nz r by (simp add: st' bind_err_def)
  moreover have "length uv = 4 * nat (M * N)"
    "\<forall>v. 0 \<le> v \<and> v < N * M \<longrightarrow> ribbon_written M N t uv v"
    using i by (simp_all add: ribbon_inv_def st')
  ultimately show ?thesis by blast
qed

lemma visit_face_onto:
  fixes M N t :: int
  assumes pos: "0 < M" "0 < N" and cop: "coprime t N" and k: "k < nat (M * N)"
  shows "\<exists>v. 0 \<le> v \<and> v < N * M \<and> nat (visit_face M N t v) = k"
proof -
  define n where "n = nat (M * N)"
  define g where "g v = nat (visit_face M N t (int v))" for v
  have nn: "int n = N * M"
    using pos by (simp add: n_def mult.commute)
  have bound: "0 \<le> int v" "int v < N * M" if "v < n" for v
    using that nn by simp_all
  have sub: "g ` {..<n} \<subseteq> {..<n}"
  proof
    fix y assume "y \<in> g ` {..<n}"
    then obtain v where v: "v < n" and y: "y = g v" by auto
    have "visit_face M N t (int v) < M * N"
      by (rule visit_face_range(2) [OF pos bound [OF v]])
    moreover have "0 \<le> visit_face M N t (int v)"
      by (rule visit_face_range(1) [OF pos bound [OF v]])
    ultimately show "y \<in> {..<n}"
      by (simp add: y g_def n_def nat_less_iff)
  qed
  have inj: "inj_on g {..<n}"
  proof (rule inj_onI)
    fix v w assume v: "v \<in> {..<n}" and w: "w \<in> {..<n}" and e: "g v = g w"
    then have v': "v < n" and w': "w < n" by simp_all
    have "visit_face M N t (int v) = visit_face M N t (int w)"
      using e visit_face_range(1) [OF pos bound [OF v'], of t]
        visit_face_range(1) [OF pos bound [OF w'], of t]
      by (simp add: g_def)
    then have "int v = int w"
      by (rule visit_face_inj [OF pos cop bound [OF v'] bound [OF w']])
    then show "v = w" by simp
  qed
  have "g ` {..<n} = {..<n}"
    by (rule endo_inj_surj [OF finite_lessThan sub inj])
  then have "k \<in> g ` {..<n}"
    using k by (simp add: n_def)
  then obtain v where v: "v < n" and kv: "k = g v" by auto
  show ?thesis
    using bound [OF v] kv by (intro exI [of _ "int v"]) (simp add: g_def)
qed

text \<open>
  When the twist is coprime to \<open>minorSegments\<close>, the ribbon mapper returns and assigns
  every loop: the face \<open>i * minorSegments + (p * sectionTwist) mod minorSegments\<close> of
  visit \<open>v = p * majorSegments + i\<close> gets \<open>U\<close> from \<open>v / count\<close> to \<open>(v + 1) / count\<close>,
  with \<open>V = 0\<close> on the loops \<open>0\<close> and \<open>1\<close> and \<open>V = 1\<close> on the loops \<open>3\<close> and \<open>2\<close>, and no
  face is visited twice.
\<close>

lemma ribbon_uv_coprime:
  assumes "3 \<le> M" and "2 \<le> N" and cop: "coprime t N"
  shows "\<exists>verts faces uv.
           add_torus R r M N a t = Inr (verts, faces) \<and>
           add_uvs_one_ribbon (build_mesh verts faces) N M t = Inr uv \<and>
           length uv = 4 * nat (M * N) \<and>
           (\<forall>p i. 0 \<le> p \<and> p < N \<and> 0 \<le> i \<and> i < M \<longrightarrow>
              uv ! (4 * nat (i * N + (p * t) mod N)) =
                Some (real_of_int (p * M + i) / real_of_int (M * N), 0) \<and>
              uv ! (4 * nat (i * N + (p * t) mod N) + 1) =
                Some (real_of_int (p * M + i + 1) / real_of_int (M * N), 0) \<and>
              uv ! (4 * nat (i * N + (p * t) mod N) + 3) =
                Some (real_of_int (p * M + i) / real_of_int (M * N), 1) \<and>
              uv ! (4 * nat (i * N + (p * t) mod N) + 2) =
                Some (real_of_int (p * M + i + 1) / real_of_int (M * N), 1)) \<and>
           (\<forall>l < 4 * nat (M * N). uv ! l \<noteq> None)"
proof -
  have pos: "0 < M" "0 < N" using assms by simp_all
  obtain verts faces where res: "add_torus R r M N a t = Inr (verts, faces)"
    and lf: "length faces = 4 * nat (M * N)"
    using add_torus_result [OF pos, of R r a t] by blast
  note bm = build_mesh_quads [OF lf, of verts]
  have lv: "length (loops_vertex_index (build_mesh verts faces)) = 4 * nat (M * N)"
    using lf by (simp add: bm(3))
  obtain uv where uv: "add_uvs_one_ribbon (build_mesh verts faces) N M t = Inr uv"
    and len: "length uv = 4 * nat (M * N)"
    and wr: "\<And>v. 0 \<le> v \<Longrightarrow> v < N * M \<Longrightarrow> ribbon_written M N t uv v"
    using ribbon_loops_inv [OF bm(1) bm(2) lv pos cop] by blast
  have order: "uv ! (4 * nat (i * N + (p * t) mod N)) =
                Some (real_of_int (p * M + i) / real_of_int (M * N), 0) \<and>
              uv ! (4 * nat (i * N + (p * t) mod N) + 1) =
                Some (real_of_int (p * M + i + 1) / real_of_int (M * N), 0) \<and>
              uv ! (4 * nat (i * N + (p * t) mod N) + 3) =
                Some (real_of_int (p * M + i) / real_of_int (M * N), 1) \<and>
              uv ! (4 * nat (i * N + (p * t) mod N) + 2) =
                Some (real_of_int (p * M + i + 1) / real_of_int (M * N), 1)"
    if pi: "0 \<le> p \<and> p < N \<and> 0 \<le> i \<and> i < M" for p i
  proof -
    have p: "0 \<le> p" "p < N" and i: "0 \<le> i" "i < M" using pi by simp_all
    note g = grid_position [OF pos(1) p i]
    have V: "0 \<le> p * M + i" "p * M + i < N * M"
      using g(1) i(1) p(1) pos by (simp_all add: nat_less_iff)
    have vf: "visit_face M N t (p * M + i) = i * N + (p * t) mod N"
      by (simp only: visit_face_def g(3) g(4))
    show ?thesis
      using wr [OF V] unfolding ribbon_written_def vf .
  qed
  have all: "uv ! l \<noteq> None" if l: "l < 4 * nat (M * N)" for l
  proof -
    have "l div 4 < nat (M * N)" using l by simp
    then obtain v where v: "0 \<le> v" "v < N * M" and k: "nat (visit_face M N t v) = l div 4"
      using visit_face_onto [OF pos cop] by blast
    have w: "uv ! (4 * (l div 4)) \<noteq> None" "uv ! (4 * (l div 4) + 1) \<noteq> None"
      "uv ! (4 * (l div 4) + 3) \<noteq> None" "uv ! (4 * (l div 4) + 2) \<noteq> None"
      using wr [OF v] unfolding ribbon_written_def k by simp_all
    have "l = 4 * (l div 4) \<or> l = 4 * (l div 4) + 1 \<or> l = 4 * (l div 4) + 3 \<or>
          l = 4 * (l div 4) + 2"
      by presburger
    then show ?thesis
      using w by (elim disjE) (erule ssubst, assumption)+
  qed
  have all': "\<forall>l < 4 * nat (M * N). uv ! l \<noteq> None"
    using all by blast
  from order have order': "\<forall>p i. 0 \<le> p \<and> p < N \<and> 0 \<le> i \<and> i < M \<longrightarrow>
              uv ! (4 * nat (i * N + (p * t) mod N)) =
                Some (real_of_int (p * M + i) / real_of_int (M * N), 0) \<and>
              uv ! (4 * nat (i * N + (p * t) mod N) + 1) =
                Some (real_of_int (p * M + i + 1) / real_of_int (M * N), 0) \<and>
              uv ! (4 * nat (i * N + (p * t) mod N) + 3) =
                Some (real_of_int (p * M + i) / real_of_int (M * N), 1) \<and>
              uv ! (4 * nat (i * N + (p * t) mod N) + 2) =
                Some (real_of_int (p * M + i + 1) / real_of_int (M * N), 1)"
    by blast
  show ?thesis
    by (intro exI [of _ verts] exI [of _ faces] exI [of _ uv] conjI res uv len order' all')
qed

text \<open>
  Claim C4 at \<open>majorSegments = 3\<close>, \<open>minorSegments = 4\<close>, \<open>sectionTwist = 2\<close>, all within
  the ranges of the operator's properties.  Since \<open>2 mod 4 \<noteq> 0\<close>, \<^verbatim>\<open>execute\<close> runs the
  ribbon mapper.  The track offsets \<open>(offset * 2) mod 4\<close> are \<open>0, 2, 0, 2\<close>: the mapper
  returns, but the loops \<open>4, ..., 7\<close> of face \<open>1\<close> are never assigned, and face \<open>0\<close> is
  written twice, so that it ends with \<open>U\<close> from \<open>1 / 2\<close> to \<open>7 / 12\<close> (its second visit,
  number \<open>6\<close> of \<open>12\<close>) instead of \<open>0\<close> to \<open>1 / 12\<close>.
\<close>

theorem ribbon_uv_misses_faces:
  "\<exists>self' m uv_data.
     execute rnd \<lparr>major_segments = 3, minor_segments = 4, section_angle = 0, section_twist = 2,
       mode = MAJOR_MINOR, major_radius = 1, minor_radius = 1 / 4, abso_major_rad = 5 / 4,
       abso_minor_rad = 3 / 4, generate_uvs = True\<rparr> = Inr (self', m, Some uv_data) \<and>
     add_uvs_one_ribbon m 4 3 2 = Inr uv_data \<and>
     length uv_data = 48 \<and>
     loop_indices m 1 = Inr [4, 5, 6, 7] \<and>
     uv_data ! 4 = None \<and> uv_data ! 5 = None \<and> uv_data ! 6 = None \<and> uv_data ! 7 = None \<and>
     loop_indices m 0 = Inr [0, 1, 2, 3] \<and>
     uv_data ! 0 = Some (1 / 2, 0) \<and> uv_data ! 1 = Some (7 / 12, 0) \<and>
     uv_data ! 3 = Some (1 / 2, 1) \<and> uv_data ! 2 = Some (7 / 12, 1)"
proof -
  define self where "self = \<lparr>major_segments = 3, minor_segments = 4, section_angle = 0,
       section_twist = 2, mode = MAJOR_MINOR, major_radius = 1, minor_radius = 1 / 4,
       abso_major_rad = 5 / 4, abso_minor_rad = 3 / 4, generate_uvs = True\<rparr>"
  have pos: "(0::int) < 3" "(0::int) < 4" by simp_all
  obtain verts faces where res: "add_torus 1 (1 / 4) 3 4 0 2 = Inr (verts, faces)"
    and lf: "length faces = 4 * nat (3 * 4)"
    using add_torus_result [OF pos, of 1 "1 / 4" 0 2] by blast
  have lf12: "length faces = 4 * 12"
    using lf by simp
  note bm = build_mesh_quads [OF lf12, of verts]
  have lv: "length (loops_vertex_index (build_mesh verts faces)) = 48"
    using lf12 by (simp add: bm(3))
  obtain uv where uv: "add_uvs_one_ribbon (build_mesh verts faces) 4 3 2 = Inr uv"
    and len: "length uv = 48"
    and unassigned: "uv ! 4 = None" "uv ! 5 = None" "uv ! 6 = None" "uv ! 7 = None"
    and face0: "uv ! 0 = Some (1 / 2, 0)" "uv ! 1 = Some (7 / 12, 0)"
      "uv ! 3 = Some (1 / 2, 1)" "uv ! 2 = Some (7 / 12, 1)"
    using add_uvs_one_ribbon_3_4_2 [OF bm(1) bm(2) lv] by blast
  have l1: "loop_indices (build_mesh verts faces) 1 = Inr [4, 5, 6, 7]"
    using loop_indices_quads [OF bm(1) bm(2), of 1] by simp
  have l0: "loop_indices (build_mesh verts faces) 0 = Inr [0, 1, 2, 3]"
    using loop_indices_quads [OF bm(1) bm(2), of 0] by simp
  have ex: "execute rnd self = Inr (self, build_mesh verts faces, Some uv)"
    by (simp add: execute_def execute_radii_def self_def res uv bind_err_def)
  from ex [unfolded self_def] uv len l1 unassigned l0 face0 show ?thesis
    by (intro exI [of _ self] exI [of _ "build_mesh verts faces"] exI [of _ uv] conjI)
      (simp_all only: self_def)
qed

end
